theory Spec2Isabelle
  imports Main "HOL-Library.Word"
begin

section \<open>Controllers, exceptions and the delegation graph\<close>

text \<open>
  A controller object is identified by its address; a possibly-\<open>NULL\<close> controller pointer
  is a \<open>cid option\<close>. Threads are identified by \<open>std::thread::id\<close>, of which only equality
  is used.
\<close>

type_synonym cid = nat
type_synonym tid = nat

text \<open>
  The exception classes that the sources throw. \<open>NotActiveController\<close> and
  \<open>ControllerRefuses\<close> are declared in HSerialExceptions.hpp and both derive from
  \<open>std::runtime_error\<close>; \<open>std::invalid_argument\<close> derives from \<open>std::logic_error\<close>
  in the C++ library but is kept apart here because the sources name it.
  \<open>DriverError\<close> stands for whatever the wrapped \<open>serial::Serial\<close> object throws.
\<close>

datatype exn =
    logic_error string
  | invalid_argument string
  | NotActiveController string
  | ControllerRefuses cid string
  | DriverError string

text \<open>
  The registered (first degree) delegates of every controller: the member
  \<open>std::vector<HSerialController*> delegates\<close>, one vector per object.
\<close>

type_synonym delegates = "cid \<Rightarrow> cid list"

definition hasAsFirstDegreeDelegate :: "delegates \<Rightarrow> cid \<Rightarrow> cid option \<Rightarrow> bool" where
  "hasAsFirstDegreeDelegate ds this otherController =
     (case otherController of
        None \<Rightarrow> False
      | Some other \<Rightarrow> other \<in> set (ds this))"

text \<open>
  \<open>HSerialController::hasAsDelegateOrSubdelegate\<close> recurses along the delegation graph
  and is not guaranteed to return on a cyclic graph, so its value is an option:
  \<open>None\<close> is a call that never returns. The function below is the \<open>for\<close> loop of the
  method, over the delegates that are still to be visited.
\<close>

partial_function (option) hasAsDelegateOrSubdelegate_loop ::
  "delegates \<Rightarrow> cid \<Rightarrow> cid list \<Rightarrow> bool option" where
  "hasAsDelegateOrSubdelegate_loop ds other xs =
     (case xs of
        [] \<Rightarrow> Some False
      | x # rest \<Rightarrow>
          if x = other then Some True
          else Option.bind (hasAsDelegateOrSubdelegate_loop ds other (ds x))
                 (\<lambda>success. if success then Some True
                             else hasAsDelegateOrSubdelegate_loop ds other rest))"

declare hasAsDelegateOrSubdelegate_loop.simps [code]

definition hasAsDelegateOrSubdelegate :: "delegates \<Rightarrow> cid \<Rightarrow> cid option \<Rightarrow> bool option" where
  "hasAsDelegateOrSubdelegate ds this otherController =
     (case otherController of
        None \<Rightarrow> Some False
      | Some other \<Rightarrow> hasAsDelegateOrSubdelegate_loop ds other (ds this))"

text \<open>
  \<open>HSerialController::appendDelegatesOfDegree\<close>: the list is passed by reference in the
  source and is returned here together with the count. The count is a \<open>size_t\<close> and the
  degree an \<open>int\<close> in the source; neither can overflow before memory is exhausted, so
  they are unbounded here.
\<close>

function appendDelegatesOfDegree :: "delegates \<Rightarrow> cid \<Rightarrow> cid list \<Rightarrow> int \<Rightarrow> nat \<times> cid list"
  and appendDelegatesOfDegree_loop ::
    "delegates \<Rightarrow> cid list \<Rightarrow> cid list \<Rightarrow> int \<Rightarrow> nat \<Rightarrow> nat \<times> cid list" where
  "appendDelegatesOfDegree ds this lst degree =
     (if degree < 0 then (0, lst)
      else if degree = 0 then (1, lst @ [this])
      else appendDelegatesOfDegree_loop ds (ds this) lst (degree - 1) 0)"
| "appendDelegatesOfDegree_loop ds [] lst degree count = (count, lst)"
| "appendDelegatesOfDegree_loop ds (x # xs) lst degree count =
     (case appendDelegatesOfDegree ds x lst degree of
        (n, lst') \<Rightarrow> appendDelegatesOfDegree_loop ds xs lst' degree (count + n))"
  by pat_completeness auto
termination
  by (relation "inv_image (less_than <*lex*> less_than)
        (\<lambda>a. case a of
           Inl (ds, this, lst, degree) \<Rightarrow> (nat (degree + 1), 0)
         | Inr (ds, xs, lst, degree, count) \<Rightarrow> (nat (degree + 1), Suc (length xs)))") auto

text \<open>
  \<open>HSerialController::getControllersList\<close>: the \<open>do ... while (numAppended > 0)\<close> loop
  runs until a degree contributes nothing, which need not happen on a cyclic graph.
\<close>

partial_function (option) getControllersList_loop ::
  "delegates \<Rightarrow> cid \<Rightarrow> cid list \<Rightarrow> int \<Rightarrow> cid list option" where
  "getControllersList_loop ds this lst degree =
     (case appendDelegatesOfDegree ds this lst degree of
        (numAppended, lst') \<Rightarrow>
          if numAppended > 0 then getControllersList_loop ds this lst' (degree + 1)
          else Some lst')"

declare getControllersList_loop.simps [code]

definition getControllersList :: "delegates \<Rightarrow> cid \<Rightarrow> cid list option" where
  "getControllersList ds this = getControllersList_loop ds this [this] 1"

text \<open>
  \<open>HSerialController::registerDelegate\<close>. The result is \<open>None\<close> when the cycle check
  itself does not return.
\<close>

definition registerDelegate :: "delegates \<Rightarrow> cid \<Rightarrow> cid option \<Rightarrow> (exn + delegates) option" where
  "registerDelegate ds this delegate =
     (case delegate of
        None \<Rightarrow> Some (Inl (invalid_argument ''A delegate must be a non-NULL controller.''))
      | Some d \<Rightarrow>
          if this = d then
            Some (Inl (invalid_argument ''A controller cannot delegate to itself.''))
          else if hasAsFirstDegreeDelegate ds this (Some d) then
            Some (Inl (invalid_argument
              ''Cannot add a delegate more than once to the same controller.''))
          else
            Option.bind (hasAsDelegateOrSubdelegate ds d (Some this))
              (\<lambda>cyclic.
                 if cyclic then Some (Inl (invalid_argument ''Delegation cycles are not allowed.''))
                 else Some (Inr (ds(this := ds this @ [d])))))"

text \<open>
  The delegation graphs that can arise: every controller starts with an empty
  \<open>delegates\<close> vector, and the vector is private and only ever extended by a call of
  \<open>registerDelegate\<close> that returns normally.
\<close>

inductive built :: "delegates \<Rightarrow> bool" where
  built_empty: "built (\<lambda>_. [])"
| built_register:
    "built ds \<Longrightarrow> registerDelegate ds this delegate = Some (Inr ds') \<Longrightarrow> built ds'"


definition delegation :: "delegates \<Rightarrow> (cid \<times> cid) set" where
  "delegation ds = {(c, d). d \<in> set (ds c)}"

section \<open>State of the access object and of its controllers\<close>

text \<open>
  The transition callbacks of HSerialController, used to record the order in which the
  access object calls them.
\<close>

datatype callback =
    WillRemove | DidCancelRemove | DidRemove | DidAdd
  | WillMakeInactive | DidCancelMakeInactive | DidMakeInactive
  | WillMakeActive | DidMakeActive

text \<open>The access functions that HSerialAccess forwards to the \<open>serial::Serial\<close> object.\<close>

datatype access_fn =
    Open | EnsureOpen | IsOpen | Close | Available | WaitReadable | WaitByteTimes
  | Read | Readline | Readlines | Write
  | SetBaudrate | GetBaudrate | SetTimeout | GetTimeout | SetBytesize | GetBytesize
  | SetParity | GetParity | SetStopbits | GetStopbits | SetFlowcontrol | GetFlowcontrol
  | SetSettings | Flush | FlushInput | FlushOutput | SendBreak | SetBreak | SetRTS | SetDTR
  | WaitForChange | GetCTS | GetDSR | GetRI | GetCD

text \<open>The value of \<open>__func__\<close> in each access function.\<close>

fun funcName :: "access_fn \<Rightarrow> string" where
  "funcName Open = ''open''"
| "funcName EnsureOpen = ''ensureOpen''"
| "funcName IsOpen = ''isOpen''"
| "funcName Close = ''close''"
| "funcName Available = ''available''"
| "funcName WaitReadable = ''waitReadable''"
| "funcName WaitByteTimes = ''waitByteTimes''"
| "funcName Read = ''read''"
| "funcName Readline = ''readline''"
| "funcName Readlines = ''readlines''"
| "funcName Write = ''write''"
| "funcName SetBaudrate = ''setBaudrate''"
| "funcName GetBaudrate = ''getBaudrate''"
| "funcName SetTimeout = ''setTimeout''"
| "funcName GetTimeout = ''getTimeout''"
| "funcName SetBytesize = ''setBytesize''"
| "funcName GetBytesize = ''getBytesize''"
| "funcName SetParity = ''setParity''"
| "funcName GetParity = ''getParity''"
| "funcName SetStopbits = ''setStopbits''"
| "funcName GetStopbits = ''getStopbits''"
| "funcName SetFlowcontrol = ''setFlowcontrol''"
| "funcName GetFlowcontrol = ''getFlowcontrol''"
| "funcName SetSettings = ''setSettings''"
| "funcName Flush = ''flush''"
| "funcName FlushInput = ''flushInput''"
| "funcName FlushOutput = ''flushOutput''"
| "funcName SendBreak = ''sendBreak''"
| "funcName SetBreak = ''setBreak''"
| "funcName SetRTS = ''setRTS''"
| "funcName SetDTR = ''setDTR''"
| "funcName WaitForChange = ''waitForChange''"
| "funcName GetCTS = ''getCTS''"
| "funcName GetDSR = ''getDSR''"
| "funcName GetRI = ''getRI''"
| "funcName GetCD = ''getCD''"

text \<open>
  How a call ends. A call either returns, or throws, or never comes back: \<open>Blocks\<close> is a
  thread that waits on a condition which nothing in the run will signal, \<open>Diverges\<close> a
  traversal of the delegation graph that does not return (or a nesting of requests deeper
  than the bound given to the run).
\<close>

datatype outcome = Returned | Threw exn | Blocks | Diverges

definition finishes :: "outcome \<Rightarrow> bool" where
  "finishes out = (case out of Returned \<Rightarrow> True | Threw e \<Rightarrow> True | Blocks \<Rightarrow> False | Diverges \<Rightarrow> False)"

text \<open>
  The members that class HSerial adds to a controller (HSerial.hpp). The member
  \<open>_isLockedActive\<close> is \<open>isLockedActive_var\<close> here.
\<close>

record hserial =
  isLocked :: bool
  isLockedActive_var :: bool
  setIsLockedActive :: bool
  am_callInProgress :: bool
  am_callThread :: tid

text \<open>
  The code of controller classes other than HSerial is not part of the library: a
  subclass of HSerialController overrides the callbacks as it likes. The subclasses
  considered here override
  \<^item> \<open>willRemove\<close>, by a sequence of requests to the access object (the sources allow
    active controller changes from this callback), optionally followed by a throw;
  \<^item> \<open>willMakeInactive\<close>, by a sequence of calls of the transition utilities
    (\<open>None\<close> inherits the default implementation of HSerialController);
  \<^item> \<open>didMakeActive\<close>, by an optional throw.
  All other callbacks keep the empty default.
\<close>

datatype request = MakeActiveRequest cid | MakeInactiveRequest cid

datatype step =
    CallBlockAccessCalls
  | CallUnblockAccessCalls
  | CallWaitForAllAccessCallsToReturn nat "exn option"
  | ThrowStep exn

datatype controller_class =
    HSerial
  | Subclass (willRemove_requests: "request list") (willRemove_throws: "exn option")
      (willMakeInactive_steps: "step list option") (didMakeActive_throws: "exn option")

text \<open>
  What stays fixed while the access object is in use: the delegation graph (delegates are
  registered in constructors), the class of every controller, the text of
  \<open>getDescription()\<close>, and one fact about the other threads of the process:
  \<open>returnsAfter\<close> is the time in milliseconds after which the access calls now in flight
  on other threads have all returned (\<open>None\<close> if they do not return).
\<close>

record env =
  delegatesOf :: delegates
  classOf :: "cid \<Rightarrow> controller_class"
  getDescription :: "cid \<Rightarrow> string"
  returnsAfter :: "nat option"

text \<open>
  The \<open>state_\<close> and \<open>tb_\<close> members of HSerialAccess, the HSerial members of the
  controllers, and four history variables that the sources do not have:
  \<open>callbacks\<close> lists the callbacks made so far, oldest first; \<open>serial_calls\<close> lists the
  access functions whose body reached the \<open>serial::Serial\<close> object; \<open>stores\<close> holds, for
  every store to \<open>state_activeController\<close>, the values of
  \<open>state_numUnreturnedAccessCalls\<close> and \<open>state_accessIsUnblocked\<close> at that moment;
  \<open>waited\<close> is the total time in milliseconds spent in \<open>wait_for\<close>.
\<close>

record world =
  state_currentController :: "cid option"
  state_activeController :: "cid option"
  state_numUnreturnedAccessCalls :: int
  state_accessIsUnblocked :: bool
  state_transitionInProgress :: bool
  state_concurrentActiveControllerChangeAllowed :: bool
  state_transitionThread :: tid
  tb_readyNumber :: "32 word"
  tb_nextNumber :: "32 word"
  hserials :: "cid \<Rightarrow> hserial"
  callbacks :: "(cid \<times> callback) list"
  serial_calls :: "access_fn list"
  stores :: "(int \<times> bool) list"
  waited :: nat

text \<open>
  Mutexes are not part of the state: the model runs one public call at a time, so
  \<open>stateMutex\<close>, \<open>tb_mutex\<close>, \<open>am_mutex\<close>, \<open>am_serializingMutex\<close>, \<open>isLockedMutex\<close> and
  \<open>accessSerializingMutex\<close> are free whenever they are locked. The two waits on condition
  variables whose predicate depends on the state are kept: a wait whose predicate is
  false is \<open>Blocks\<close>.
\<close>

definition at_scope_exit :: "(world \<Rightarrow> world) \<Rightarrow> outcome \<times> world \<Rightarrow> outcome \<times> world" where
  "at_scope_exit dtor r = (case r of (out, w) \<Rightarrow> (out, if finishes out then dtor w else w))"

definition record_callback :: "cid \<Rightarrow> callback \<Rightarrow> world \<Rightarrow> world" where
  "record_callback c cb w = w\<lparr>callbacks := callbacks w @ [(c, cb)]\<rparr>"

subsection \<open>Decimal output of the stream operator\<close>

function show_nat :: "nat \<Rightarrow> string" where
  "show_nat n = (if n < 10 then [char_of (48 + n)]
                 else show_nat (n div 10) @ [char_of (48 + n mod 10)])"
  by pat_completeness auto
termination
  by (relation "measure id") auto

definition show_int :: "int \<Rightarrow> string" where
  "show_int i = (if i < 0 then CHR ''-'' # show_nat (nat (- i)) else show_nat (nat i))"


section \<open>HSerialAccess\<close>

subsection \<open>TransitionBlocker, AccessUnblocker, AccessGuard\<close>

text \<open>
  The constructor of TransitionBlocker takes the next number and waits until it is the
  ready number. The ready number only advances in the destructor of the blocker that is
  ahead in the queue, so a thread that finds its number not ready while it runs alone
  waits for ever: the first component of the result is whether the constructor returns.
\<close>

definition TransitionBlocker_ctor :: "tid \<Rightarrow> world \<Rightarrow> bool \<times> world" where
  "TransitionBlocker_ctor t w =
     (let number = tb_nextNumber w;
          w1 = w\<lparr>tb_nextNumber := tb_nextNumber w + 1\<rparr>
      in if number = tb_readyNumber w1 then
           (True, w1\<lparr>state_transitionInProgress := True,
                     state_concurrentActiveControllerChangeAllowed := False,
                     state_transitionThread := t\<rparr>)
         else (False, w1))"

definition TransitionBlocker_dtor :: "world \<Rightarrow> world" where
  "TransitionBlocker_dtor w =
     w\<lparr>state_transitionInProgress := False, tb_readyNumber := tb_readyNumber w + 1\<rparr>"

definition AccessUnblocker_dtor :: "world \<Rightarrow> world" where
  "AccessUnblocker_dtor w =
     (if \<not> state_accessIsUnblocked w then w\<lparr>state_accessIsUnblocked := True\<rparr> else w)"

definition throwIfNotActiveController :: "env \<Rightarrow> cid \<Rightarrow> string \<Rightarrow> world \<Rightarrow> exn option" where
  "throwIfNotActiveController E controller fn w =
     (if Some controller \<noteq> state_activeController w then
        Some (logic_error (''The controller must be active to call '' @ fn
                @ ''. Inactive controller: '' @ getDescription E controller @ ''.''))
      else None)"

definition throwIfNotTransitionCorrect :: "env \<Rightarrow> tid \<Rightarrow> cid \<Rightarrow> string \<Rightarrow> world \<Rightarrow> exn option" where
  "throwIfNotTransitionCorrect E t controller fn w =
     (if \<not> state_transitionInProgress w \<or> t \<noteq> state_transitionThread w then
        Some (logic_error (''Calling '' @ fn
                @ '' is allowed only from a transition callback or subcall. Controller: ''
                @ getDescription E controller @ ''.''))
      else None)"

text \<open>The predicate on which the constructor of AccessGuard waits.\<close>

definition access_may_proceed :: "tid \<Rightarrow> world \<Rightarrow> bool" where
  "access_may_proceed t w =
     (if state_transitionInProgress w then
        (if t = state_transitionThread w then True else state_accessIsUnblocked w)
      else True)"

definition AccessGuard_ctor :: "env \<Rightarrow> tid \<Rightarrow> cid \<Rightarrow> string \<Rightarrow> world \<Rightarrow> outcome \<times> world" where
  "AccessGuard_ctor E t controller fn w =
     (if \<not> access_may_proceed t w then (Blocks, w)
      else case throwIfNotActiveController E controller fn w of
             Some e \<Rightarrow> (Threw e, w)
           | None \<Rightarrow>
               (Returned,
                w\<lparr>state_numUnreturnedAccessCalls := state_numUnreturnedAccessCalls w + 1\<rparr>))"

definition AccessGuard_dtor :: "world \<Rightarrow> world" where
  "AccessGuard_dtor w =
     w\<lparr>state_numUnreturnedAccessCalls := state_numUnreturnedAccessCalls w - 1\<rparr>"

subsection \<open>Controller access functions\<close>

text \<open>
  Every access function of HSerialAccess has the same shape: an AccessGuard is
  constructed, then the body works on the \<open>serial::Serial\<close> object, then the guard is
  destroyed, also when the body throws. The guard is not destroyed when its own
  constructor throws. The serial object is not part of the library; what it does is
  given by \<open>driver\<close>, the exception that the body ends with, if any, and the values that
  the access functions return are left out.
\<close>

definition access_call ::
  "env \<Rightarrow> tid \<Rightarrow> cid \<Rightarrow> access_fn \<Rightarrow> exn option \<Rightarrow> world \<Rightarrow> outcome \<times> world" where
  "access_call E t controller f driver w =
     (case AccessGuard_ctor E t controller (funcName f) w of
        (Returned, w1) \<Rightarrow>
          (let w2 = w1\<lparr>serial_calls := serial_calls w1 @ [f]\<rparr>
           in (case driver of None \<Rightarrow> Returned | Some e \<Rightarrow> Threw e, AccessGuard_dtor w2))
      | (out, w1) \<Rightarrow> (out, w1))"


subsection \<open>Controller access blocking\<close>

definition blockAccessCalls :: "env \<Rightarrow> tid \<Rightarrow> cid \<Rightarrow> world \<Rightarrow> exn + world" where
  "blockAccessCalls E t controller w =
     (case throwIfNotTransitionCorrect E t controller ''blockAccessCalls'' w of
        Some e \<Rightarrow> Inl e
      | None \<Rightarrow>
          (case throwIfNotActiveController E controller ''blockAccessCalls'' w of
             Some e \<Rightarrow> Inl e
           | None \<Rightarrow> Inr (w\<lparr>state_accessIsUnblocked := False\<rparr>)))"

definition unblockAccessCalls :: "env \<Rightarrow> tid \<Rightarrow> cid \<Rightarrow> world \<Rightarrow> exn + world" where
  "unblockAccessCalls E t controller w =
     (case throwIfNotTransitionCorrect E t controller ''unblockAccessCalls'' w of
        Some e \<Rightarrow> Inl e
      | None \<Rightarrow>
          (case throwIfNotActiveController E controller ''unblockAccessCalls'' w of
             Some e \<Rightarrow> Inl e
           | None \<Rightarrow> Inr (w\<lparr>state_accessIsUnblocked := True\<rparr>)))"

text \<open>
  \<open>allAccessCallsReturnedCondition.wait_for(lock, timeout, pred)\<close> returns at once with
  \<open>true\<close> when no access call is unreturned. Otherwise it returns \<open>true\<close> as soon as the
  calls in flight on the other threads have returned, if that happens within the
  timeout, and \<open>false\<close> at the timeout.
\<close>

definition wait_for_allAccessCallsReturned :: "env \<Rightarrow> nat \<Rightarrow> world \<Rightarrow> bool \<times> world" where
  "wait_for_allAccessCallsReturned E timeout w =
     (if state_numUnreturnedAccessCalls w = 0 then (True, w)
      else case returnsAfter E of
             None \<Rightarrow> (False, w\<lparr>waited := waited w + timeout\<rparr>)
           | Some d \<Rightarrow>
               if d \<le> timeout then
                 (True, w\<lparr>state_numUnreturnedAccessCalls := 0, waited := waited w + d\<rparr>)
               else (False, w\<lparr>waited := waited w + timeout\<rparr>))"

definition waitForAllAccessCallsToReturn ::
  "env \<Rightarrow> tid \<Rightarrow> cid \<Rightarrow> nat \<Rightarrow> world \<Rightarrow> exn + bool \<times> world" where
  "waitForAllAccessCallsToReturn E t controller timeout w =
     (case throwIfNotTransitionCorrect E t controller ''waitForAllAccessCallsToReturn'' w of
        Some e \<Rightarrow> Inl e
      | None \<Rightarrow>
          (case throwIfNotActiveController E controller ''waitForAllAccessCallsToReturn'' w of
             Some e \<Rightarrow> Inl e
           | None \<Rightarrow> Inr (wait_for_allAccessCallsReturned E timeout w)))"

subsection \<open>Transition callbacks\<close>

text \<open>\<open>HSerialController::willMakeInactive\<close>, the default implementation.\<close>

definition HSerialController_willMakeInactive ::
  "env \<Rightarrow> tid \<Rightarrow> cid \<Rightarrow> world \<Rightarrow> outcome \<times> world" where
  "HSerialController_willMakeInactive E t this w =
     (case blockAccessCalls E t this w of
        Inl e \<Rightarrow> (Threw e, w)
      | Inr w1 \<Rightarrow>
          (case waitForAllAccessCallsToReturn E t this 1500 w1 of
             Inl e \<Rightarrow> (Threw e, w1)
           | Inr (success, w2) \<Rightarrow>
               if \<not> success then
                 (Threw (ControllerRefuses this ''Access calls have not returned.''), w2)
               else (Returned, w2)))"

text \<open>\<open>HSerial::transitionInitiatedExternally\<close> and the callbacks that HSerial overrides.\<close>

definition transitionInitiatedExternally :: "tid \<Rightarrow> hserial \<Rightarrow> bool" where
  "transitionInitiatedExternally t h = (\<not> am_callInProgress h \<or> am_callThread h \<noteq> t)"

definition HSerial_willMakeInactive :: "env \<Rightarrow> tid \<Rightarrow> cid \<Rightarrow> world \<Rightarrow> outcome \<times> world" where
  "HSerial_willMakeInactive E t this w =
     (if transitionInitiatedExternally t (hserials w this) \<and> isLocked (hserials w this) then
        (Threw (ControllerRefuses this ''The controller is locked.''), w)
      else
        case blockAccessCalls E t this w of
          Inl e \<Rightarrow> (Threw e, w)
        | Inr w1 \<Rightarrow>
            (case waitForAllAccessCallsToReturn E t this 1000 w1 of
               Inl e \<Rightarrow> (Threw e, w1)
             | Inr (success, w2) \<Rightarrow>
                 if \<not> success then
                   (Threw (ControllerRefuses this
                      (''The controller is using the port. Controller: ''
                         @ getDescription E this @ ''.'')), w2)
                 else (Returned, w2)))"

definition HSerial_didMakeInactive :: "cid \<Rightarrow> world \<Rightarrow> world" where
  "HSerial_didMakeInactive this w =
     w\<lparr>hserials := (hserials w)
          (this := (hserials w this)\<lparr>isLocked := False, isLockedActive_var := False\<rparr>)\<rparr>"

definition HSerial_didMakeActive :: "cid \<Rightarrow> world \<Rightarrow> world" where
  "HSerial_didMakeActive this w =
     w\<lparr>hserials := (hserials w)
          (this := (hserials w this)
             \<lparr>isLocked := setIsLockedActive (hserials w this),
              isLockedActive_var := setIsLockedActive (hserials w this)\<rparr>)\<rparr>"

text \<open>A \<open>willMakeInactive\<close> written by a subclass, as a sequence of utility calls.\<close>

fun run_steps :: "env \<Rightarrow> tid \<Rightarrow> cid \<Rightarrow> step list \<Rightarrow> world \<Rightarrow> outcome \<times> world" where
  "run_steps E t this [] w = (Returned, w)"
| "run_steps E t this (CallBlockAccessCalls # ss) w =
     (case blockAccessCalls E t this w of
        Inl e \<Rightarrow> (Threw e, w)
      | Inr w1 \<Rightarrow> run_steps E t this ss w1)"
| "run_steps E t this (CallUnblockAccessCalls # ss) w =
     (case unblockAccessCalls E t this w of
        Inl e \<Rightarrow> (Threw e, w)
      | Inr w1 \<Rightarrow> run_steps E t this ss w1)"
| "run_steps E t this (CallWaitForAllAccessCallsToReturn timeout orelse # ss) w =
     (case waitForAllAccessCallsToReturn E t this timeout w of
        Inl e \<Rightarrow> (Threw e, w)
      | Inr (success, w1) \<Rightarrow>
          (case orelse of
             Some e \<Rightarrow> if \<not> success then (Threw e, w1) else run_steps E t this ss w1
           | None \<Rightarrow> run_steps E t this ss w1))"
| "run_steps E t this (ThrowStep e # ss) w = (Threw e, w)"

text \<open>
  The virtual calls. Each records the callback and runs the implementation of the
  controller's class.
\<close>

definition call_willMakeInactive :: "env \<Rightarrow> tid \<Rightarrow> cid \<Rightarrow> world \<Rightarrow> outcome \<times> world" where
  "call_willMakeInactive E t c w =
     (let w1 = record_callback c WillMakeInactive w
      in case classOf E c of
           HSerial \<Rightarrow> HSerial_willMakeInactive E t c w1
         | Subclass rs th None dma \<Rightarrow> HSerialController_willMakeInactive E t c w1
         | Subclass rs th (Some ss) dma \<Rightarrow> run_steps E t c ss w1)"

definition call_didCancelMakeInactive :: "cid \<Rightarrow> world \<Rightarrow> world" where
  "call_didCancelMakeInactive c w = record_callback c DidCancelMakeInactive w"

definition call_didMakeInactive :: "env \<Rightarrow> cid \<Rightarrow> world \<Rightarrow> world" where
  "call_didMakeInactive E c w =
     (let w1 = record_callback c DidMakeInactive w
      in case classOf E c of
           HSerial \<Rightarrow> HSerial_didMakeInactive c w1
         | Subclass rs th ss dma \<Rightarrow> w1)"

definition call_willMakeActive :: "cid \<Rightarrow> world \<Rightarrow> world" where
  "call_willMakeActive c w = record_callback c WillMakeActive w"

definition call_didMakeActive :: "env \<Rightarrow> cid \<Rightarrow> world \<Rightarrow> outcome \<times> world" where
  "call_didMakeActive E c w =
     (let w1 = record_callback c DidMakeActive w
      in case classOf E c of
           HSerial \<Rightarrow> (Returned, HSerial_didMakeActive c w1)
         | Subclass rs th ss dma \<Rightarrow>
             (case dma of None \<Rightarrow> (Returned, w1) | Some e \<Rightarrow> (Threw e, w1)))"

definition call_didCancelRemove :: "cid \<Rightarrow> world \<Rightarrow> world" where
  "call_didCancelRemove c w = record_callback c DidCancelRemove w"

definition call_didRemove :: "cid \<Rightarrow> world \<Rightarrow> world" where
  "call_didRemove c w = record_callback c DidRemove w"

definition call_didAdd :: "cid \<Rightarrow> world \<Rightarrow> world" where
  "call_didAdd c w = record_callback c DidAdd w"

text \<open>
  \<open>willRemove\<close> of a subclass sends its requests to the access object, through the
  handler \<open>h\<close>, and stops at the first that does not return.
\<close>

fun run_requests ::
  "(request \<Rightarrow> world \<Rightarrow> outcome \<times> world) \<Rightarrow> request list \<Rightarrow> world \<Rightarrow> outcome \<times> world" where
  "run_requests h [] w = (Returned, w)"
| "run_requests h (r # rs) w =
     (case h r w of
        (Returned, w1) \<Rightarrow> run_requests h rs w1
      | (out, w1) \<Rightarrow> (out, w1))"

definition call_willRemove ::
  "(request \<Rightarrow> world \<Rightarrow> outcome \<times> world) \<Rightarrow> env \<Rightarrow> cid \<Rightarrow> world \<Rightarrow> outcome \<times> world" where
  "call_willRemove h E c w =
     (let w1 = record_callback c WillRemove w
      in case classOf E c of
           HSerial \<Rightarrow> (Returned, w1)
         | Subclass rs th ss dma \<Rightarrow>
             (case run_requests h rs w1 of
                (Returned, w2) \<Rightarrow>
                  (case th of None \<Rightarrow> (Returned, w2) | Some e \<Rightarrow> (Threw e, w2))
              | (out, w2) \<Rightarrow> (out, w2)))"


subsection \<open>Internal access management\<close>

definition isInAccessList :: "env \<Rightarrow> cid \<Rightarrow> world \<Rightarrow> bool option" where
  "isInAccessList E controller w =
     (case state_currentController w of
        None \<Rightarrow> Some False
      | Some cc \<Rightarrow>
          if cc = controller then Some True
          else hasAsDelegateOrSubdelegate (delegatesOf E) cc (Some controller))"

definition shouldPerformConcurrentActiveControllerChange ::
  "env \<Rightarrow> tid \<Rightarrow> cid \<Rightarrow> world \<Rightarrow> bool option" where
  "shouldPerformConcurrentActiveControllerChange E t controller w =
     (if state_transitionInProgress w
         \<and> state_concurrentActiveControllerChangeAllowed w
         \<and> state_transitionThread w = t
      then isInAccessList E controller w
      else Some False)"

text \<open>
  The \<open>try\<close> block of \<open>performTransition\<close>, entered with \<open>stateMutex\<close> locked: the two
  requirements for a safe transition. The state is returned in both cases, since the
  first check may already have blocked the access calls when the second one throws.
\<close>

definition transition_requirements :: "env \<Rightarrow> cid option \<Rightarrow> world \<Rightarrow> exn option \<times> world" where
  "transition_requirements E oldActiveController w =
     (case (if state_accessIsUnblocked w then
              (case oldActiveController of
                 Some a \<Rightarrow>
                   (Some (logic_error
                      (''Access calls must be blocked in willMakeInactive. Controller: ''
                         @ getDescription E a @ ''.'')), w)
               | None \<Rightarrow> (None, w\<lparr>state_accessIsUnblocked := False\<rparr>))
            else (None, w)) of
        (Some e, w1) \<Rightarrow> (Some e, w1)
      | (None, w1) \<Rightarrow>
          if state_numUnreturnedAccessCalls w1 > 0 then
            (case oldActiveController of
               Some a \<Rightarrow>
                 (Some (logic_error
                    (''There are '' @ show_int (state_numUnreturnedAccessCalls w1)
                       @ '' unreturned access calls after willMakeInactive was called. Controller: ''
                       @ getDescription E a @ ''.'')), w1)
             | None \<Rightarrow>
                 (Some (logic_error ''There are unreturned access calls for a NULL controller.''),
                  w1))
          else (None, w1))"

text \<open>
  The rest of \<open>performTransition\<close> after \<open>willMakeInactive\<close> has returned. The store to
  \<open>state_activeController\<close> is the only one in the sources; the history variable
  \<open>stores\<close> is extended in the same step.
\<close>

definition transition_commit ::
  "env \<Rightarrow> cid option \<Rightarrow> cid option \<Rightarrow> bool \<Rightarrow> world \<Rightarrow> outcome \<times> world" where
  "transition_commit E oldActiveController newController alsoSetAsCurrentController w =
     (case transition_requirements E oldActiveController w of
        (Some e, w1) \<Rightarrow>
          (Threw e,
           case oldActiveController of
             Some a \<Rightarrow> call_didCancelMakeInactive a w1
           | None \<Rightarrow> w1)
      | (None, w1) \<Rightarrow>
          (let w2 = (case newController of Some n \<Rightarrow> call_willMakeActive n w1 | None \<Rightarrow> w1);
               w3 = w2\<lparr>state_activeController := newController,
                       stores := stores w2
                         @ [(state_numUnreturnedAccessCalls w2, state_accessIsUnblocked w2)]\<rparr>;
               w4 = (if alsoSetAsCurrentController
                     then w3\<lparr>state_currentController := newController\<rparr> else w3);
               w5 = (case oldActiveController of
                       Some a \<Rightarrow> call_didMakeInactive E a w4
                     | None \<Rightarrow> w4)
           in (Returned, w5)))"

definition performTransition ::
  "env \<Rightarrow> tid \<Rightarrow> cid option \<Rightarrow> bool \<Rightarrow> world \<Rightarrow> outcome \<times> world" where
  "performTransition E t newController alsoSetAsCurrentController w =
     (let oldActiveController = state_activeController w
      in case oldActiveController of
           None \<Rightarrow>
             transition_commit E oldActiveController newController alsoSetAsCurrentController w
         | Some a \<Rightarrow>
             (case call_willMakeInactive E t a w of
                (Returned, w1) \<Rightarrow>
                  transition_commit E oldActiveController newController
                    alsoSetAsCurrentController w1
              | (out, w1) \<Rightarrow> (out, w1)))"

definition performActiveControllerChange ::
  "env \<Rightarrow> tid \<Rightarrow> cid option \<Rightarrow> world \<Rightarrow> outcome \<times> world" where
  "performActiveControllerChange E t newActiveController w =
     at_scope_exit AccessUnblocker_dtor
       (case performTransition E t newActiveController False w of
          (Returned, w1) \<Rightarrow>
            (case newActiveController of
               Some n \<Rightarrow> call_didMakeActive E n w1
             | None \<Rightarrow> (Returned, w1))
        | (out, w1) \<Rightarrow> (out, w1))"

text \<open>
  The first loop of \<open>performCurrentControllerChange\<close>: \<open>willRemove\<close> on the old access
  list, collecting \<open>notifiedList\<close>.
\<close>

fun willRemove_loop ::
  "(request \<Rightarrow> world \<Rightarrow> outcome \<times> world) \<Rightarrow> env \<Rightarrow> cid list \<Rightarrow> cid list \<Rightarrow> world
     \<Rightarrow> outcome \<times> cid list \<times> world" where
  "willRemove_loop h E [] notifiedList w = (Returned, notifiedList, w)"
| "willRemove_loop h E (x # xs) notifiedList w =
     (case call_willRemove h E x w of
        (Returned, w1) \<Rightarrow> willRemove_loop h E xs (notifiedList @ [x]) w1
      | (out, w1) \<Rightarrow> (out, notifiedList, w1))"

text \<open>The loops over a list of controllers that call a callback which cannot throw.\<close>

definition for_each :: "(cid \<Rightarrow> world \<Rightarrow> world) \<Rightarrow> cid list \<Rightarrow> world \<Rightarrow> world" where
  "for_each f xs w = fold f xs w"

text \<open>
  The \<open>try\<close> block of \<open>performCurrentControllerChange\<close>. Its result carries
  \<open>notifiedList\<close> as it stands when the block is left.
\<close>

definition performCurrentControllerChange_try ::
  "(request \<Rightarrow> world \<Rightarrow> outcome \<times> world) \<Rightarrow> env \<Rightarrow> tid \<Rightarrow> cid option \<Rightarrow> cid list \<Rightarrow> world
     \<Rightarrow> outcome \<times> cid list \<times> world" where
  "performCurrentControllerChange_try h E t newCurrentController oldAccessList w =
     (case willRemove_loop h E oldAccessList []
             (w\<lparr>state_concurrentActiveControllerChangeAllowed := True\<rparr>) of
        (Returned, notifiedList, w1) \<Rightarrow>
          (case performTransition E t newCurrentController True
                  (w1\<lparr>state_concurrentActiveControllerChangeAllowed := False\<rparr>) of
             (out, w2) \<Rightarrow> (out, notifiedList, w2))
      | (out, notifiedList, w1) \<Rightarrow> (out, notifiedList, w1))"

definition performCurrentControllerChange ::
  "(request \<Rightarrow> world \<Rightarrow> outcome \<times> world) \<Rightarrow> env \<Rightarrow> tid \<Rightarrow> cid option \<Rightarrow> world
     \<Rightarrow> outcome \<times> world" where
  "performCurrentControllerChange h E t newCurrentController w =
     (case (case state_currentController w of
              None \<Rightarrow> Some []
            | Some oc \<Rightarrow> getControllersList (delegatesOf E) oc) of
        None \<Rightarrow> (Diverges, w)
      | Some oldAccessList \<Rightarrow>
          at_scope_exit AccessUnblocker_dtor
            (case performCurrentControllerChange_try h E t newCurrentController oldAccessList w of
               (Threw e, notifiedList, w2) \<Rightarrow>
                 (Threw e,
                  for_each call_didCancelRemove notifiedList
                    (w2\<lparr>state_concurrentActiveControllerChangeAllowed := True\<rparr>))
             | (Returned, notifiedList, w2) \<Rightarrow>
                 (let w3 = for_each call_didRemove oldAccessList w2
                  in case newCurrentController of
                       None \<Rightarrow> (Returned, w3)
                     | Some n \<Rightarrow>
                         (case getControllersList (delegatesOf E) n of
                            None \<Rightarrow> (Diverges, w3)
                          | Some newAccessList \<Rightarrow>
                              call_didMakeActive E n
                                (for_each call_didAdd (rev newAccessList) w3)))
             | (out, notifiedList, w2) \<Rightarrow> (out, w2)))"

subsection \<open>Controller access management\<close>

text \<open>
  \<open>makeActive\<close> and \<open>removeFromAccess\<close> may change the current controller, which calls
  \<open>willRemove\<close>, which may send requests back to the access object: they take the
  handler of those requests as a parameter. \<open>makeInactive\<close> never changes the current
  controller.
\<close>

definition makeActive_with ::
  "(request \<Rightarrow> world \<Rightarrow> outcome \<times> world) \<Rightarrow> env \<Rightarrow> tid \<Rightarrow> cid \<Rightarrow> world \<Rightarrow> outcome \<times> world" where
  "makeActive_with h E t controller w =
     (case shouldPerformConcurrentActiveControllerChange E t controller w of
        None \<Rightarrow> (Diverges, w)
      | Some True \<Rightarrow>
          if Some controller \<noteq> state_activeController w
          then performActiveControllerChange E t (Some controller) w
          else (Returned, w)
      | Some False \<Rightarrow>
          (case TransitionBlocker_ctor t w of
             (False, w1) \<Rightarrow> (Blocks, w1)
           | (True, w1) \<Rightarrow>
               at_scope_exit TransitionBlocker_dtor
                 (case isInAccessList E controller w1 of
                    None \<Rightarrow> (Diverges, w1)
                  | Some True \<Rightarrow>
                      if Some controller \<noteq> state_activeController w1
                      then performActiveControllerChange E t (Some controller) w1
                      else (Returned, w1)
                  | Some False \<Rightarrow>
                      performCurrentControllerChange h E t (Some controller) w1)))"

definition makeInactive :: "env \<Rightarrow> tid \<Rightarrow> cid \<Rightarrow> world \<Rightarrow> outcome \<times> world" where
  "makeInactive E t controller w =
     (case shouldPerformConcurrentActiveControllerChange E t controller w of
        None \<Rightarrow> (Diverges, w)
      | Some True \<Rightarrow>
          if Some controller = state_activeController w
          then performActiveControllerChange E t None w
          else (Returned, w)
      | Some False \<Rightarrow>
          (case TransitionBlocker_ctor t w of
             (False, w1) \<Rightarrow> (Blocks, w1)
           | (True, w1) \<Rightarrow>
               at_scope_exit TransitionBlocker_dtor
                 (if Some controller = state_activeController w1
                  then performActiveControllerChange E t None w1
                  else (Returned, w1))))"

definition removeFromAccess_with ::
  "(request \<Rightarrow> world \<Rightarrow> outcome \<times> world) \<Rightarrow> env \<Rightarrow> tid \<Rightarrow> cid \<Rightarrow> world \<Rightarrow> outcome \<times> world" where
  "removeFromAccess_with h E t controller w =
     (case TransitionBlocker_ctor t w of
        (False, w1) \<Rightarrow> (Blocks, w1)
      | (True, w1) \<Rightarrow>
          at_scope_exit TransitionBlocker_dtor
            (case isInAccessList E controller w1 of
               None \<Rightarrow> (Diverges, w1)
             | Some True \<Rightarrow>
                 if Some controller = state_currentController w1
                 then performCurrentControllerChange h E t None w1
                 else
                   (Threw (logic_error
                      (''Cannot remove controller from access if it is not the current controller. Controller: ''
                         @ getDescription E controller @ ''.'')), w1)
             | Some False \<Rightarrow> (Returned, w1)))"

text \<open>
  A request sent from a callback is an ordinary call of \<open>makeActive\<close> or \<open>makeInactive\<close>
  on the thread of the transition. The number bounds how deeply such calls are nested.
\<close>

primrec handle_request :: "nat \<Rightarrow> env \<Rightarrow> tid \<Rightarrow> request \<Rightarrow> world \<Rightarrow> outcome \<times> world" where
  "handle_request 0 E t r w = (Diverges, w)"
| "handle_request (Suc n) E t r w =
     (case r of
        MakeActiveRequest c \<Rightarrow> makeActive_with (handle_request n E t) E t c w
      | MakeInactiveRequest c \<Rightarrow> makeInactive E t c w)"

definition makeActive :: "nat \<Rightarrow> env \<Rightarrow> tid \<Rightarrow> cid \<Rightarrow> world \<Rightarrow> outcome \<times> world" where
  "makeActive n E t controller w = makeActive_with (handle_request n E t) E t controller w"

definition removeFromAccess :: "nat \<Rightarrow> env \<Rightarrow> tid \<Rightarrow> cid \<Rightarrow> world \<Rightarrow> outcome \<times> world" where
  "removeFromAccess n E t controller w =
     removeFromAccess_with (handle_request n E t) E t controller w"


section \<open>HSerial: a controller that can lock itself active\<close>

definition modify_hserial :: "cid \<Rightarrow> (hserial \<Rightarrow> hserial) \<Rightarrow> world \<Rightarrow> world" where
  "modify_hserial this f w = w\<lparr>hserials := (hserials w)(this := f (hserials w this))\<rparr>"

definition AccessManagementGuard_ctor :: "tid \<Rightarrow> cid \<Rightarrow> world \<Rightarrow> world" where
  "AccessManagementGuard_ctor t owner w =
     modify_hserial owner (\<lambda>h. h\<lparr>am_callInProgress := True, am_callThread := t\<rparr>) w"

definition AccessManagementGuard_dtor :: "cid \<Rightarrow> world \<Rightarrow> world" where
  "AccessManagementGuard_dtor owner w =
     modify_hserial owner (\<lambda>h. h\<lparr>am_callInProgress := False\<rparr>) w"

definition HSerial_isLockedActive :: "cid \<Rightarrow> world \<Rightarrow> bool" where
  "HSerial_isLockedActive this w = isLockedActive_var (hserials w this)"


definition HSerial_makeInactive :: "env \<Rightarrow> tid \<Rightarrow> cid \<Rightarrow> world \<Rightarrow> outcome \<times> world" where
  "HSerial_makeInactive E t this w =
     (let w1 = AccessManagementGuard_ctor t this w
      in at_scope_exit (AccessManagementGuard_dtor this) (makeInactive E t this w1))"


definition HSerial_unlockActive :: "tid \<Rightarrow> cid \<Rightarrow> world \<Rightarrow> outcome \<times> world" where
  "HSerial_unlockActive t this w =
     (let w1 = AccessManagementGuard_ctor t this w
      in at_scope_exit (AccessManagementGuard_dtor this)
           (Returned,
            modify_hserial this (\<lambda>h. h\<lparr>isLocked := False, isLockedActive_var := False\<rparr>) w1))"


section \<open>Example configurations\<close>

text \<open>
  A freshly constructed access object and a freshly constructed HSerial: the member
  initialisers of HSerialAccess.hpp and HSerial.hpp. The members that have no
  initialiser there (\<open>state_transitionInProgress\<close>,
  \<open>state_concurrentActiveControllerChangeAllowed\<close>, \<open>state_transitionThread\<close>,
  \<open>am_callThread\<close> and \<open>isLocked\<close>) are given the value they have when no
  transition is in progress and the controller is not locked.
\<close>

definition fresh_hserial :: hserial where
  "fresh_hserial =
     \<lparr>isLocked = False, isLockedActive_var = False, setIsLockedActive = False,
      am_callInProgress = False, am_callThread = 0\<rparr>"

definition fresh_access :: world where
  "fresh_access =
     \<lparr>state_currentController = None, state_activeController = None,
      state_numUnreturnedAccessCalls = 0, state_accessIsUnblocked = True,
      state_transitionInProgress = False,
      state_concurrentActiveControllerChangeAllowed = False,
      state_transitionThread = 0, tb_readyNumber = 0, tb_nextNumber = 0,
      hserials = (\<lambda>_. fresh_hserial), callbacks = [], serial_calls = [], stores = [],
      waited = 0\<rparr>"

text \<open>
  Controller 1 delegates to controller 2; controller 3 stands alone. All three are
  subclasses that keep every default callback.
\<close>

definition plain :: controller_class where
  "plain = Subclass [] None None None"

definition E_plain :: env where
  "E_plain =
     \<lparr>delegatesOf = (\<lambda>c. if c = 1 then [2] else []),
      classOf = (\<lambda>_. plain),
      getDescription = (\<lambda>_. ''controller''),
      returnsAfter = None\<rparr>"

text \<open>Controller 1 is current and active, and nothing is in flight.\<close>

definition w_one_active :: world where
  "w_one_active =
     fresh_access\<lparr>state_currentController := Some 1, state_activeController := Some 1\<rparr>"


text \<open>
  The same while a transition runs on thread 7, as the callbacks of that transition
  find it.
\<close>

definition w_in_transition :: world where
  "w_in_transition =
     w_one_active\<lparr>state_transitionInProgress := True, state_transitionThread := 7,
                  tb_nextNumber := 1\<rparr>"

text \<open>
  Controller 1 overrides \<open>willMakeInactive\<close> by a function that returns at once,
  without blocking the access calls.
\<close>

definition E_careless :: env where
  "E_careless = E_plain\<lparr>classOf := (\<lambda>c. if c = 1 then Subclass [] None (Some []) None else plain)\<rparr>"



text \<open>Controller 1 is an HSerial; in \<open>w_locked\<close> it is locked active.\<close>

definition E_hserial :: env where
  "E_hserial = E_plain\<lparr>classOf := (\<lambda>c. if c = 1 then HSerial else plain)\<rparr>"

definition w_locked :: world where
  "w_locked =
     w_one_active\<lparr>hserials := (\<lambda>c. if c = 1
        then fresh_hserial\<lparr>isLocked := True, isLockedActive_var := True,
                           setIsLockedActive := True\<rparr>
        else fresh_hserial)\<rparr>"


text \<open>
  Controller 1, active, has one access call in flight on another thread, which returns
  after 1200 ms.
\<close>

definition E_reading :: env where
  "E_reading = E_hserial\<lparr>returnsAfter := Some 1200\<rparr>"

definition w_reading :: world where
  "w_reading = w_in_transition\<lparr>state_numUnreturnedAccessCalls := 1\<rparr>"

section \<open>Auxiliary notions\<close>

text \<open>
  What the transition utilities can do to the state: \<open>w1\<close> differs from \<open>w\<close> at most in
  the counter of unreturned access calls, in the blocking flag and in the time waited,
  and the counter has not become negative.
\<close>

definition drained_from :: "world \<Rightarrow> world \<Rightarrow> bool" where
  "drained_from w w1 \<longleftrightarrow>
     (\<exists>n u d. w1 = w\<lparr>state_numUnreturnedAccessCalls := n, state_accessIsUnblocked := u,
                      waited := d\<rparr>
        \<and> (0 \<le> state_numUnreturnedAccessCalls w \<longrightarrow> 0 \<le> n))"

text \<open>
  The access calls now unreturned have all returned within the timeout: there are none,
  or the ones in flight return in time.
\<close>

definition drains_within :: "env \<Rightarrow> world \<Rightarrow> nat \<Rightarrow> bool" where
  "drains_within E w timeout \<longleftrightarrow>
     state_numUnreturnedAccessCalls w = 0
     \<or> (case returnsAfter E of Some d \<Rightarrow> d \<le> timeout | None \<Rightarrow> False)"

text \<open>
  What a request sent from inside a transition leaves alone: the two numbers of the
  TransitionBlocker queue and the current controller.
\<close>

definition queue_frame :: "world \<Rightarrow> world \<Rightarrow> bool" where
  "queue_frame w w' \<longleftrightarrow>
     tb_nextNumber w' = tb_nextNumber w \<and> tb_readyNumber w' = tb_readyNumber w
     \<and> state_currentController w' = state_currentController w"





section \<open>Properties of the delegation graph\<close>

declare appendDelegatesOfDegree.simps [simp del]


lemma delegation_induct:
  assumes "wf ((delegation ds)\<inverse>)" and "\<And>c. (\<And>d. d \<in> set (ds c) \<Longrightarrow> P d) \<Longrightarrow> P c"
  shows "P a"
  using assms(1)
proof (induction a rule: wf_induct_rule)
  case (less c)
  show ?case by (rule assms(2)) (simp add: less delegation_def)
qed

lemma loop_list:
  assumes "\<And>x. x \<in> set xs \<Longrightarrow>
     hasAsDelegateOrSubdelegate_loop ds other (ds x) = Some ((x, other) \<in> (delegation ds)\<^sup>+)"
  shows "hasAsDelegateOrSubdelegate_loop ds other xs =
           Some (\<exists>x\<in>set xs. (x, other) \<in> (delegation ds)\<^sup>*)"
  using assms
proof (induction xs)
  case Nil
  show ?case by (subst hasAsDelegateOrSubdelegate_loop.simps) simp
next
  case (Cons x xs)
  have r: "(y, other) \<in> (delegation ds)\<^sup>* \<longleftrightarrow> y = other \<or> (y, other) \<in> (delegation ds)\<^sup>+" for y
    by (auto simp: rtrancl_eq_or_trancl)
  show ?case
    apply (subst hasAsDelegateOrSubdelegate_loop.simps)
    using Cons by (auto simp: r)
qed

lemma trancl_delegation:
  "(c, other) \<in> (delegation ds)\<^sup>+ \<longleftrightarrow> (\<exists>d\<in>set (ds c). (d, other) \<in> (delegation ds)\<^sup>*)"
proof
  assume "(c, other) \<in> (delegation ds)\<^sup>+"
  then obtain d where "(c, d) \<in> delegation ds" "(d, other) \<in> (delegation ds)\<^sup>*"
    by (auto dest: tranclD)
  then show "\<exists>d\<in>set (ds c). (d, other) \<in> (delegation ds)\<^sup>*"
    by (auto simp: delegation_def)
next
  assume "\<exists>d\<in>set (ds c). (d, other) \<in> (delegation ds)\<^sup>*"
  then obtain d where "(c, d) \<in> delegation ds" "(d, other) \<in> (delegation ds)\<^sup>*"
    by (auto simp: delegation_def)
  then show "(c, other) \<in> (delegation ds)\<^sup>+" by (rule rtrancl_into_trancl2)
qed

lemma loop_node:
  assumes "wf ((delegation ds)\<inverse>)"
  shows "hasAsDelegateOrSubdelegate_loop ds other (ds c) = Some ((c, other) \<in> (delegation ds)\<^sup>+)"
proof (induction c rule: delegation_induct [OF assms])
  case (1 c)
  then show ?case by (simp add: loop_list trancl_delegation)
qed

lemma hasAsDelegateOrSubdelegate_wf:
  assumes "wf ((delegation ds)\<inverse>)"
  shows "hasAsDelegateOrSubdelegate ds c (Some other) = Some ((c, other) \<in> (delegation ds)\<^sup>+)"
  by (simp add: hasAsDelegateOrSubdelegate_def loop_node [OF assms])

lemma delegation_upd: "delegation (ds(c := ds c @ [d])) = insert (c, d) (delegation ds)"
  by (auto simp: delegation_def split: if_splits)

lemma built_finite_acyclic: "built ds \<Longrightarrow> finite (delegation ds) \<and> acyclic (delegation ds)"
proof (induction rule: built.induct)
  case built_empty
  show ?case by (simp add: delegation_def acyclic_def)
next
  case (built_register ds this delegate ds')
  then have wf: "wf ((delegation ds)\<inverse>)" by (simp add: finite_acyclic_wf_converse)
  from built_register(2) obtain d where d: "delegate = Some d" "this \<noteq> d"
      "hasAsDelegateOrSubdelegate ds d (Some this) = Some False" "ds' = ds(this := ds this @ [d])"
    by (auto simp: registerDelegate_def split: option.splits if_splits bind_splits)
  from d(3) have "(d, this) \<notin> (delegation ds)\<^sup>+"
    by (simp add: hasAsDelegateOrSubdelegate_wf [OF wf])
  with d(2) have "(d, this) \<notin> (delegation ds)\<^sup>*" by (auto simp: rtrancl_eq_or_trancl)
  moreover have "delegation ds' = insert (this, d) (delegation ds)"
    unfolding d(4) by (rule delegation_upd)
  ultimately show ?case using built_register(3) by simp
qed

lemma built_wf: "built ds \<Longrightarrow> wf ((delegation ds)\<inverse>)"
  by (simp add: built_finite_acyclic finite_acyclic_wf_converse)

lemma append_prefix:
  "\<exists>l. snd (appendDelegatesOfDegree ds c lst degree) = lst @ l"
  "\<exists>l. snd (appendDelegatesOfDegree_loop ds xs lst degree count) = lst @ l"
proof (induction ds c lst degree and ds xs lst degree count
    rule: appendDelegatesOfDegree_appendDelegatesOfDegree_loop.induct)
  case (1 ds this lst degree)
  then show ?case by (simp add: appendDelegatesOfDegree.simps(1))
next
  case (2 ds lst degree count)
  show ?case by simp
next
  case (3 ds x xs lst degree count)
  obtain n lst' where a: "appendDelegatesOfDegree ds x lst degree = (n, lst')"
    by (cases "appendDelegatesOfDegree ds x lst degree")
  with 3(1) obtain l1 where l1: "lst' = lst @ l1" by auto
  from 3(2) [OF a [symmetric]] obtain l2 where
    "snd (appendDelegatesOfDegree_loop ds xs lst' degree (count + n)) = lst' @ l2" by auto
  then show ?case by (simp add: a l1)
qed

lemma append_loop_zero:
  assumes "\<And>x lst. x \<in> set xs \<Longrightarrow> fst (appendDelegatesOfDegree ds x lst degree) = 0"
  shows "fst (appendDelegatesOfDegree_loop ds xs lst degree count) = count"
  using assms
proof (induction xs arbitrary: lst count)
  case Nil
  show ?case by simp
next
  case (Cons x xs)
  obtain n lst' where a: "appendDelegatesOfDegree ds x lst degree = (n, lst')"
    by (cases "appendDelegatesOfDegree ds x lst degree")
  have "n = 0" using Cons.prems [of x lst] a by simp
  then show ?case using Cons by (simp add: a)
qed

lemma bound_list:
  assumes "\<And>x. x \<in> set xs \<Longrightarrow> \<exists>D::int. \<forall>d\<ge>D. P x d"
  shows "\<exists>D. \<forall>x\<in>set xs. \<forall>d\<ge>D. P x d"
  using assms
proof (induction xs)
  case Nil
  show ?case by simp
next
  case (Cons x xs)
  then obtain D1 where D1: "\<forall>y\<in>set xs. \<forall>d\<ge>D1. P y d" by auto
  from Cons.prems [of x] obtain D2 where D2: "\<forall>d\<ge>D2. P x d" by auto
  have "\<forall>y\<in>set (x # xs). \<forall>d\<ge>max D1 D2. P y d" using D1 D2 by auto
  then show ?case by blast
qed

lemma append_eventually_zero:
  assumes "wf ((delegation ds)\<inverse>)"
  shows "\<exists>D. \<forall>degree\<ge>D. \<forall>lst. fst (appendDelegatesOfDegree ds c lst degree) = 0"
proof (induction c rule: delegation_induct [OF assms])
  case (1 c)
  from bound_list [of "ds c" "\<lambda>x d. \<forall>lst. fst (appendDelegatesOfDegree ds x lst d) = 0", OF 1]
  obtain D where D: "\<forall>x\<in>set (ds c). \<forall>d\<ge>D. \<forall>lst. fst (appendDelegatesOfDegree ds x lst d) = 0"
    by blast
  have "\<forall>degree\<ge>max 1 (D + 1). \<forall>lst. fst (appendDelegatesOfDegree ds c lst degree) = 0"
  proof (intro allI impI)
    fix degree :: int and lst
    assume "max 1 (D + 1) \<le> degree"
    then have "0 < degree" "D \<le> degree - 1" by auto
    then show "fst (appendDelegatesOfDegree ds c lst degree) = 0"
      using D by (subst appendDelegatesOfDegree.simps(1)) (simp add: append_loop_zero)
  qed
  then show ?case by blast
qed

lemma getControllersList_loop_returns:
  assumes D: "\<forall>degree\<ge>D. \<forall>lst. fst (appendDelegatesOfDegree ds c lst degree) = 0"
  shows "\<exists>l. getControllersList_loop ds c lst degree = Some (lst @ l)"
proof (induction "nat (D - degree)" arbitrary: lst degree rule: less_induct)
  case less
  obtain n lst' where a: "appendDelegatesOfDegree ds c lst degree = (n, lst')"
    by (cases "appendDelegatesOfDegree ds c lst degree")
  from append_prefix(1) [of ds c lst degree] a obtain l1 where l1: "lst' = lst @ l1" by auto
  show ?case
  proof (cases "n > 0")
    case False
    then show ?thesis
      by (subst getControllersList_loop.simps) (simp add: a l1)
  next
    case True
    with D a have "degree < D" by (metis fst_conv not_le less_numeral_extra(3))
    then have "nat (D - (degree + 1)) < nat (D - degree)" by simp
    from less [OF this] obtain l2 where
      "getControllersList_loop ds c lst' (degree + 1) = Some (lst' @ l2)" by blast
    with True show ?thesis
      by (subst getControllersList_loop.simps) (simp add: a l1)
  qed
qed

lemma getControllersList_returns:
  assumes "wf ((delegation ds)\<inverse>)"
  shows "\<exists>l. getControllersList ds c = Some (c # l)"
proof -
  from append_eventually_zero [OF assms] obtain D where
    "\<forall>degree\<ge>D. \<forall>lst. fst (appendDelegatesOfDegree ds c lst degree) = 0" by blast
  from getControllersList_loop_returns [OF this, of "[c]" 1]
  show ?thesis by (simp add: getControllersList_def)
qed


lemma append_count:
  "\<exists>l. appendDelegatesOfDegree ds c lst degree = (length l, lst @ l)"
  "\<exists>l. appendDelegatesOfDegree_loop ds xs lst degree count = (count + length l, lst @ l)"
proof (induction ds c lst degree and ds xs lst degree count
    rule: appendDelegatesOfDegree_appendDelegatesOfDegree_loop.induct)
  case (1 ds this lst degree)
  show ?case
  proof (cases "degree < 0")
    case True
    then show ?thesis by (simp add: appendDelegatesOfDegree.simps(1))
  next
    case False
    show ?thesis
    proof (cases "degree = 0")
      case True
      have "appendDelegatesOfDegree ds this lst degree = (length [this], lst @ [this])"
        using True by (simp add: appendDelegatesOfDegree.simps(1))
      then show ?thesis by blast
    next
      case False
      with \<open>\<not> degree < 0\<close> 1 show ?thesis
        by (simp add: appendDelegatesOfDegree.simps(1))
    qed
  qed
next
  case (2 ds lst degree count)
  show ?case by simp
next
  case (3 ds x xs lst degree count)
  from 3(1) obtain l1 where a: "appendDelegatesOfDegree ds x lst degree = (length l1, lst @ l1)"
    by blast
  from 3(2) [OF a [symmetric]] obtain l2 where
    "appendDelegatesOfDegree_loop ds xs (lst @ l1) degree (count + length l1)
       = (count + length l1 + length l2, (lst @ l1) @ l2)" by blast
  then have "appendDelegatesOfDegree_loop ds (x # xs) lst degree count
       = (count + length (l1 @ l2), lst @ (l1 @ l2))"
    by (simp add: a)
  then show ?case by blast
qed

text \<open>
  Claim C9. In every delegation graph that was built by calls of \<open>registerDelegate\<close>
  alone, \<open>hasAsDelegateOrSubdelegate\<close> returns for every pair of controllers and
  \<open>getControllersList\<close> returns a list that starts with the controller itself (so it is
  not empty). \<open>appendDelegatesOfDegree\<close> returns on every graph (it is a total function,
  by the termination proof that accompanies its definition) and reports the number of
  controllers it appended. On such a graph \<open>registerDelegate\<close> always returns or
  throws: it throws \<open>std::invalid_argument\<close> for a \<open>NULL\<close> delegate, for the controller
  itself, for a delegate that is already registered, and for a delegate from which the
  controller can be reached along the delegation graph; otherwise it appends the
  delegate.
\<close>

theorem built_traversals_return:
  assumes "built ds"
  shows "(\<exists>b. hasAsDelegateOrSubdelegate ds c other = Some b)
       \<and> (\<exists>l. getControllersList ds c = Some (c # l))
       \<and> (\<exists>l. appendDelegatesOfDegree ds c lst degree = (length l, lst @ l))
       \<and> registerDelegate ds c None
           = Some (Inl (invalid_argument ''A delegate must be a non-NULL controller.''))
       \<and> registerDelegate ds c (Some c)
           = Some (Inl (invalid_argument ''A controller cannot delegate to itself.''))
       \<and> (d \<noteq> c \<and> d \<in> set (ds c) \<longrightarrow>
            registerDelegate ds c (Some d) = Some (Inl (invalid_argument
              ''Cannot add a delegate more than once to the same controller.'')))
       \<and> (d \<noteq> c \<and> d \<notin> set (ds c) \<and> (d, c) \<in> (delegation ds)\<^sup>+ \<longrightarrow>
            registerDelegate ds c (Some d)
              = Some (Inl (invalid_argument ''Delegation cycles are not allowed.'')))
       \<and> (d \<noteq> c \<and> d \<notin> set (ds c) \<and> (d, c) \<notin> (delegation ds)\<^sup>+ \<longrightarrow>
            registerDelegate ds c (Some d) = Some (Inr (ds(c := ds c @ [d]))))"
proof -
  have wf: "wf ((delegation ds)\<inverse>)" using assms by (rule built_wf)
  have has: "\<exists>b. hasAsDelegateOrSubdelegate ds c other = Some b"
  proof (cases other)
    case None
    then show ?thesis by (auto simp: hasAsDelegateOrSubdelegate_def)
  next
    case (Some o')
    then show ?thesis by (simp add: hasAsDelegateOrSubdelegate_wf [OF wf])
  qed
  have reg: "registerDelegate ds c None
           = Some (Inl (invalid_argument ''A delegate must be a non-NULL controller.''))"
    "registerDelegate ds c (Some c)
           = Some (Inl (invalid_argument ''A controller cannot delegate to itself.''))"
    "d \<noteq> c \<and> d \<in> set (ds c) \<longrightarrow>
            registerDelegate ds c (Some d) = Some (Inl (invalid_argument
              ''Cannot add a delegate more than once to the same controller.''))"
    "d \<noteq> c \<and> d \<notin> set (ds c) \<and> (d, c) \<in> (delegation ds)\<^sup>+ \<longrightarrow>
            registerDelegate ds c (Some d)
              = Some (Inl (invalid_argument ''Delegation cycles are not allowed.''))"
    "d \<noteq> c \<and> d \<notin> set (ds c) \<and> (d, c) \<notin> (delegation ds)\<^sup>+ \<longrightarrow>
            registerDelegate ds c (Some d) = Some (Inr (ds(c := ds c @ [d])))"
    by (auto simp: registerDelegate_def hasAsFirstDegreeDelegate_def
        hasAsDelegateOrSubdelegate_wf [OF wf])
  from has getControllersList_returns [OF wf, of c] append_count(1) [of ds c lst degree] reg
  show ?thesis by blast
qed

lemma built_E_plain: "built (delegatesOf E_plain)"
proof -
  have "registerDelegate (\<lambda>_. []) 1 (Some 2) = Some (Inr (delegatesOf E_plain))"
    by (simp add: registerDelegate_def hasAsFirstDegreeDelegate_def
        hasAsDelegateOrSubdelegate_def hasAsDelegateOrSubdelegate_loop.simps E_plain_def
        fun_eq_iff)
  with built_empty show ?thesis by (rule built_register)
qed

theorem built_traversals_return_witness:
  "built (delegatesOf E_plain)
   \<and> hasAsDelegateOrSubdelegate (delegatesOf E_plain) 1 (Some 2) = Some True
   \<and> getControllersList (delegatesOf E_plain) 1 = Some [1, 2]
   \<and> appendDelegatesOfDegree (delegatesOf E_plain) 1 [1] 1 = (1, [1, 2])
   \<and> 2 \<in> set (delegatesOf E_plain 1)
   \<and> registerDelegate (delegatesOf E_plain) 1 (Some 2) = Some (Inl (invalid_argument
        ''Cannot add a delegate more than once to the same controller.''))
   \<and> (1, 2) \<in> (delegation (delegatesOf E_plain))\<^sup>+
   \<and> registerDelegate (delegatesOf E_plain) 2 (Some 1)
        = Some (Inl (invalid_argument ''Delegation cycles are not allowed.''))
   \<and> 3 \<notin> set (delegatesOf E_plain 2) \<and> (3, 2) \<notin> (delegation (delegatesOf E_plain))\<^sup>+
   \<and> registerDelegate (delegatesOf E_plain) 2 (Some 3)
        = Some (Inr ((delegatesOf E_plain)(2 := delegatesOf E_plain 2 @ [3])))"
proof -
  let ?ds = "delegatesOf E_plain"
  have h: "hasAsDelegateOrSubdelegate ?ds 1 (Some 2) = Some True" by code_simp
  have g: "getControllersList ?ds 1 = Some [1, 2]" by code_simp
  have a: "appendDelegatesOfDegree ?ds 1 [1] 1 = (1, [1, 2])" by code_simp
  have m: "2 \<in> set (?ds 1)" "3 \<notin> set (?ds 2)" "1 \<notin> set (?ds 2)"
    by (simp_all add: E_plain_def)
  have e: "(1, 2) \<in> delegation ?ds" using m(1) by (simp add: delegation_def)
  then have t: "(1, 2) \<in> (delegation ?ds)\<^sup>+" by blast
  have n: "(3, 2) \<notin> (delegation ?ds)\<^sup>+"
  proof
    assume "(3, 2) \<in> (delegation ?ds)\<^sup>+"
    then obtain y where "(3, y) \<in> delegation ?ds" by (auto dest: tranclD)
    then show False by (simp add: delegation_def E_plain_def)
  qed
  show ?thesis
    using built_E_plain built_traversals_return [OF built_E_plain, of 1 "Some 2" "[1]" 1 2]
      built_traversals_return [OF built_E_plain, of 2 None "[]" 0 1]
      built_traversals_return [OF built_E_plain, of 2 None "[]" 0 3] h g a m t n
    by simp
qed

section \<open>Properties of the access guard\<close>


lemma AccessGuard_ctor_rejects:
  assumes "access_may_proceed t w" and "Some c \<noteq> state_activeController w"
  shows "AccessGuard_ctor E t c fn w =
           (Threw (logic_error (''The controller must be active to call '' @ fn
              @ ''. Inactive controller: '' @ getDescription E c @ ''.'')), w)"
  using assms by (simp add: AccessGuard_ctor_def throwIfNotActiveController_def)

lemma AccessGuard_ctor_accepts:
  assumes "access_may_proceed t w" and "Some c = state_activeController w"
  shows "AccessGuard_ctor E t c fn w =
           (Returned, w\<lparr>state_numUnreturnedAccessCalls := state_numUnreturnedAccessCalls w + 1\<rparr>)"
  using assms by (simp add: AccessGuard_ctor_def throwIfNotActiveController_def)

lemma AccessGuard_ctor_blocks:
  assumes "\<not> access_may_proceed t w"
  shows "AccessGuard_ctor E t c fn w = (Blocks, w)"
  using assms by (simp add: AccessGuard_ctor_def)

text \<open>
  Claim C10. An access call leaves \<open>state_numUnreturnedAccessCalls\<close> as it found it,
  however it ends. When the calling controller is not active the constructor of the
  guard throws before it has changed anything, and the call ends with the state it
  started in (the destructor does not run). When the controller is active the
  constructor adds one, the body reaches the serial object, and the destructor takes
  the one away, also when the body throws.
\<close>

theorem access_call_counter:
  "state_numUnreturnedAccessCalls (snd (access_call E t c f driver w))
     = state_numUnreturnedAccessCalls w
   \<and> (access_may_proceed t w \<and> Some c \<noteq> state_activeController w \<longrightarrow>
        snd (AccessGuard_ctor E t c (funcName f) w) = w
        \<and> (\<exists>m. access_call E t c f driver w = (Threw (logic_error m), w)))
   \<and> (access_may_proceed t w \<and> Some c = state_activeController w \<longrightarrow>
        state_numUnreturnedAccessCalls (snd (AccessGuard_ctor E t c (funcName f) w))
          = state_numUnreturnedAccessCalls w + 1
        \<and> fst (access_call E t c f driver w)
            = (case driver of None \<Rightarrow> Returned | Some e \<Rightarrow> Threw e)
        \<and> serial_calls (snd (access_call E t c f driver w)) = serial_calls w @ [f])"
proof (cases "access_may_proceed t w")
  case False
  then show ?thesis by (simp add: access_call_def AccessGuard_ctor_blocks)
next
  case True
  show ?thesis
  proof (cases "Some c = state_activeController w")
    case True
    with \<open>access_may_proceed t w\<close> show ?thesis
      by (simp add: access_call_def AccessGuard_ctor_accepts AccessGuard_dtor_def)
  next
    case False
    with \<open>access_may_proceed t w\<close> show ?thesis
      by (simp add: access_call_def AccessGuard_ctor_rejects)
  qed
qed

theorem access_call_counter_witness:
  "access_may_proceed 7 w_one_active \<and> Some 2 \<noteq> state_activeController w_one_active
   \<and> Some 1 = state_activeController w_one_active
   \<and> state_numUnreturnedAccessCalls (snd (access_call E_plain 7 2 Read None w_one_active)) = 0
   \<and> snd (AccessGuard_ctor E_plain 7 2 (funcName Read) w_one_active) = w_one_active
   \<and> state_numUnreturnedAccessCalls (snd (AccessGuard_ctor E_plain 7 1 (funcName Read) w_one_active)) = 1
   \<and> state_numUnreturnedAccessCalls (snd (access_call E_plain 7 1 Read (Some (DriverError ''io'')) w_one_active)) = 0
   \<and> fst (access_call E_plain 7 1 Read (Some (DriverError ''io'')) w_one_active) = Threw (DriverError ''io'')"
  using access_call_counter [of E_plain 7 2 Read None w_one_active]
    access_call_counter [of E_plain 7 1 Read "Some (DriverError ''io'')" w_one_active]
  by (simp add: w_one_active_def fresh_access_def access_may_proceed_def)

text \<open>
  Claim C3. Controller 2 is not active and calls \<open>read\<close>. The guard stops the call before
  the serial object is reached, but what it throws is a \<open>std::logic_error\<close>, not the
  \<open>NotActiveController\<close> that HSerialExceptions.hpp declares and that the documentation
  of every access function names.
\<close>

theorem inactive_access_throws_logic_error:
  "access_call E_plain 7 2 Read None w_one_active =
     (Threw (logic_error
        ''The controller must be active to call read. Inactive controller: controller.''),
      w_one_active)
   \<and> fst (access_call E_plain 7 2 Read None w_one_active)
        \<noteq> Threw (NotActiveController
              ''The controller must be active to call read. Inactive controller: controller.'')
   \<and> serial_calls (snd (access_call E_plain 7 2 Read None w_one_active)) = []"
  by (simp add: access_call_def AccessGuard_ctor_def access_may_proceed_def
      throwIfNotActiveController_def w_one_active_def fresh_access_def E_plain_def)

section \<open>Properties of a transition\<close>

subsection \<open>What the transition utilities and the callbacks leave untouched\<close>



lemma drained_from_refl: "drained_from w w"
  unfolding drained_from_def
  by (rule exI [of _ "state_numUnreturnedAccessCalls w"],
      rule exI [of _ "state_accessIsUnblocked w"], rule exI [of _ "waited w"]) simp

lemma drained_from_trans: "drained_from w w1 \<Longrightarrow> drained_from w1 w2 \<Longrightarrow> drained_from w w2"
  unfolding drained_from_def by (elim exE conjE) (simp, blast)

lemma blockAccessCalls_drained: "blockAccessCalls E t c w = Inr w1 \<Longrightarrow> drained_from w w1"
  unfolding drained_from_def blockAccessCalls_def
  by (rule exI [of _ "state_numUnreturnedAccessCalls w"], rule exI [of _ False],
      rule exI [of _ "waited w"]) (auto split: option.splits)

lemma unblockAccessCalls_drained: "unblockAccessCalls E t c w = Inr w1 \<Longrightarrow> drained_from w w1"
  unfolding drained_from_def unblockAccessCalls_def
  by (rule exI [of _ "state_numUnreturnedAccessCalls w"], rule exI [of _ True],
      rule exI [of _ "waited w"]) (auto split: option.splits)

lemma wait_for_drained:
  "wait_for_allAccessCallsReturned E timeout w = (b, w1) \<Longrightarrow> drained_from w w1"
  unfolding drained_from_def wait_for_allAccessCallsReturned_def
  by (rule exI [of _ "state_numUnreturnedAccessCalls w1"],
      rule exI [of _ "state_accessIsUnblocked w"], rule exI [of _ "waited w1"])
     (auto split: option.splits if_splits)

lemma waitForAllAccessCallsToReturn_drained:
  "waitForAllAccessCallsToReturn E t c timeout w = Inr (b, w1) \<Longrightarrow> drained_from w w1"
  by (auto simp: waitForAllAccessCallsToReturn_def wait_for_drained split: option.splits)

lemma run_steps_drained: "run_steps E t c ss w = (out, w1) \<Longrightarrow> drained_from w w1"
proof (induction E t c ss w rule: run_steps.induct)
  case (1 E t this w)
  then show ?case by (simp add: drained_from_refl)
next
  case (2 E t this ss w)
  then show ?case
    by (auto simp: drained_from_refl split: sum.splits
        dest!: blockAccessCalls_drained intro: drained_from_trans)
next
  case (3 E t this ss w)
  then show ?case
    by (auto simp: drained_from_refl split: sum.splits
        dest!: unblockAccessCalls_drained intro: drained_from_trans)
next
  case (4 E t this timeout orelse ss w)
  then show ?case
    by (auto simp: drained_from_refl split: sum.splits option.splits if_splits
        dest!: waitForAllAccessCallsToReturn_drained intro: drained_from_trans)
next
  case (5 E t this e ss w)
  then show ?case by (simp add: drained_from_refl)
qed

lemma HSerialController_willMakeInactive_drained:
  "HSerialController_willMakeInactive E t c w = (out, w1) \<Longrightarrow> drained_from w w1"
  unfolding HSerialController_willMakeInactive_def
  by (auto simp: drained_from_refl split: sum.splits if_splits
      dest!: blockAccessCalls_drained waitForAllAccessCallsToReturn_drained
      intro: drained_from_trans)

lemma HSerial_willMakeInactive_drained:
  "HSerial_willMakeInactive E t c w = (out, w1) \<Longrightarrow> drained_from w w1"
  unfolding HSerial_willMakeInactive_def
  by (auto simp: drained_from_refl split: sum.splits if_splits
      dest!: blockAccessCalls_drained waitForAllAccessCallsToReturn_drained
      intro: drained_from_trans)

lemma call_willMakeInactive_drained:
  "call_willMakeInactive E t c w = (out, w1) \<Longrightarrow>
     drained_from (record_callback c WillMakeInactive w) w1"
  unfolding call_willMakeInactive_def
  by (auto simp: Let_def split: controller_class.splits option.splits
      dest: HSerial_willMakeInactive_drained HSerialController_willMakeInactive_drained
        run_steps_drained)

lemma drained_from_fields:
  assumes "drained_from w w1"
  shows "state_currentController w1 = state_currentController w"
    and "state_activeController w1 = state_activeController w"
    and "state_transitionInProgress w1 = state_transitionInProgress w"
    and "state_concurrentActiveControllerChangeAllowed w1
           = state_concurrentActiveControllerChangeAllowed w"
    and "state_transitionThread w1 = state_transitionThread w"
    and "tb_readyNumber w1 = tb_readyNumber w"
    and "tb_nextNumber w1 = tb_nextNumber w"
    and "hserials w1 = hserials w"
    and "callbacks w1 = callbacks w"
    and "serial_calls w1 = serial_calls w"
    and "stores w1 = stores w"
    and "0 \<le> state_numUnreturnedAccessCalls w \<Longrightarrow> 0 \<le> state_numUnreturnedAccessCalls w1"
  using assms unfolding drained_from_def by auto

lemma call_willMakeInactive_fields:
  assumes "call_willMakeInactive E t c w = (out, w1)"
  shows "state_currentController w1 = state_currentController w"
    and "state_activeController w1 = state_activeController w"
    and "state_transitionInProgress w1 = state_transitionInProgress w"
    and "state_concurrentActiveControllerChangeAllowed w1
           = state_concurrentActiveControllerChangeAllowed w"
    and "state_transitionThread w1 = state_transitionThread w"
    and "tb_readyNumber w1 = tb_readyNumber w"
    and "tb_nextNumber w1 = tb_nextNumber w"
    and "hserials w1 = hserials w"
    and "callbacks w1 = callbacks w @ [(c, WillMakeInactive)]"
    and "serial_calls w1 = serial_calls w"
    and "stores w1 = stores w"
    and "0 \<le> state_numUnreturnedAccessCalls w \<Longrightarrow> 0 \<le> state_numUnreturnedAccessCalls w1"
  using drained_from_fields [OF call_willMakeInactive_drained [OF assms]]
  by (simp_all add: record_callback_def)


lemma transition_requirements_met:
  assumes "transition_requirements E old w = (None, w1)"
  shows "w1 = w\<lparr>state_accessIsUnblocked := False\<rparr>"
    and "state_numUnreturnedAccessCalls w \<le> 0"
    and "old \<noteq> None \<Longrightarrow> \<not> state_accessIsUnblocked w"
  using assms unfolding transition_requirements_def
  by (auto split: if_splits option.splits)

lemma transition_requirements_unmet:
  assumes "state_accessIsUnblocked w \<or> 0 < state_numUnreturnedAccessCalls w"
  shows "\<exists>m. transition_requirements E (Some a) w = (Some (logic_error m), w)"
  using assms unfolding transition_requirements_def by auto

lemma transition_requirements_throws:
  assumes "transition_requirements E old w = (Some e, w1)"
  shows "\<exists>m. e = logic_error m"
    and "state_currentController w1 = state_currentController w"
    and "state_activeController w1 = state_activeController w"
    and "hserials w1 = hserials w"
    and "callbacks w1 = callbacks w"
    and "stores w1 = stores w"
    and "state_numUnreturnedAccessCalls w1 = state_numUnreturnedAccessCalls w"
  using assms unfolding transition_requirements_def
  by (auto split: if_splits option.splits)

lemma call_didMakeInactive_fields:
  shows "state_currentController (call_didMakeInactive E c w) = state_currentController w"
    and "state_activeController (call_didMakeInactive E c w) = state_activeController w"
    and "state_numUnreturnedAccessCalls (call_didMakeInactive E c w)
           = state_numUnreturnedAccessCalls w"
    and "state_accessIsUnblocked (call_didMakeInactive E c w) = state_accessIsUnblocked w"
    and "callbacks (call_didMakeInactive E c w) = callbacks w @ [(c, DidMakeInactive)]"
    and "stores (call_didMakeInactive E c w) = stores w"
  by (simp_all add: call_didMakeInactive_def record_callback_def HSerial_didMakeInactive_def
      Let_def split: controller_class.splits)


lemma transition_commit_returned:
  assumes "transition_commit E old new cur w = (Returned, w')"
    and "0 \<le> state_numUnreturnedAccessCalls w"
  shows "stores w' = stores w @ [(0, False)]"
    and "state_activeController w' = new"
    and "state_currentController w' = (if cur then new else state_currentController w)"
    and "state_numUnreturnedAccessCalls w' = 0"
    and "\<not> state_accessIsUnblocked w'"
  using assms transition_requirements_met [of E old w]
  unfolding transition_commit_def
  by (auto simp: Let_def call_willMakeActive_def record_callback_def call_didMakeInactive_fields
      split: prod.splits option.splits if_splits)

lemma transition_commit_not_returned:
  assumes "transition_commit E old new cur w = (out, w')" and "out \<noteq> Returned"
  shows "\<exists>m. out = Threw (logic_error m)"
    and "stores w' = stores w"
    and "state_activeController w' = state_activeController w"
    and "state_currentController w' = state_currentController w"
    and "hserials w' = hserials w"
    and "callbacks w' = callbacks w @ (case old of Some a \<Rightarrow> [(a, DidCancelMakeInactive)] | None \<Rightarrow> [])"
proof -
  obtain eo w1 where r: "transition_requirements E old w = (eo, w1)"
    by (cases "transition_requirements E old w")
  from assms r obtain e where e: "eo = Some e"
    by (cases eo) (auto simp: transition_commit_def Let_def)
  note t = transition_requirements_throws [OF r [unfolded e]]
  from assms(1) r e have o: "out = Threw e"
    and w': "w' = (case old of Some a \<Rightarrow> call_didCancelMakeInactive a w1 | None \<Rightarrow> w1)"
    by (simp_all add: transition_commit_def)
  from o t(1) show "\<exists>m. out = Threw (logic_error m)" by simp
  show "stores w' = stores w"
    by (simp add: w' t call_didCancelMakeInactive_def record_callback_def split: option.splits)
  show "state_activeController w' = state_activeController w"
    by (simp add: w' t call_didCancelMakeInactive_def record_callback_def split: option.splits)
  show "state_currentController w' = state_currentController w"
    by (simp add: w' t call_didCancelMakeInactive_def record_callback_def split: option.splits)
  show "hserials w' = hserials w"
    by (simp add: w' t call_didCancelMakeInactive_def record_callback_def split: option.splits)
  show "callbacks w' = callbacks w @ (case old of Some a \<Rightarrow> [(a, DidCancelMakeInactive)] | None \<Rightarrow> [])"
    by (simp add: w' t call_didCancelMakeInactive_def record_callback_def split: option.splits)
qed

lemma performTransition_cases:
  assumes "performTransition E t new cur w = (out, w')"
  obtains (no_old) "state_activeController w = None"
      "transition_commit E None new cur w = (out, w')"
    | (accepted) a w1 where "state_activeController w = Some a"
      "call_willMakeInactive E t a w = (Returned, w1)"
      "transition_commit E (Some a) new cur w1 = (out, w')"
    | (refused) a where "state_activeController w = Some a"
      "call_willMakeInactive E t a w = (out, w')" "out \<noteq> Returned"
proof (cases "state_activeController w")
  case None
  with assms have "transition_commit E None new cur w = (out, w')"
    by (simp add: performTransition_def)
  with None show ?thesis by (rule no_old)
next
  case (Some a)
  obtain o1 w1 where c: "call_willMakeInactive E t a w = (o1, w1)"
    by (cases "call_willMakeInactive E t a w")
  show ?thesis
  proof (cases "o1 = Returned")
    case True
    with assms Some c have "transition_commit E (Some a) new cur w1 = (out, w')"
      by (simp add: performTransition_def)
    with Some c True show ?thesis by (auto intro: accepted)
  next
    case False
    with assms Some c have "out = o1" "w' = w1"
      by (auto simp: performTransition_def split: outcome.splits)
    with Some c False show ?thesis by (auto intro: refused)
  qed
qed

text \<open>
  Claim C1. \<open>performTransition\<close> is the only function that stores to
  \<open>state_activeController\<close>, and both kinds of transition go through it (the flag
  tells them apart). Started with a counter that is not negative, it stores only when
  the counter is 0 and the access calls are blocked: every store it makes is recorded
  as \<open>(0, False)\<close>. If it does not return normally it has stored nothing. And if the
  outgoing active controller's \<open>willMakeInactive\<close> returns while the access calls are
  still unblocked or some are still unreturned, the transition is not performed,
  \<open>didCancelMakeInactive\<close> is called on that controller right after, and a
  \<open>std::logic_error\<close> is thrown.
\<close>

theorem activeController_store_is_safe:
  assumes "performTransition E t new cur w = (out, w')"
    and "0 \<le> state_numUnreturnedAccessCalls w"
  shows "(out = Returned \<longrightarrow>
            stores w' = stores w @ [(0, False)] \<and> state_activeController w' = new)
       \<and> (out \<noteq> Returned \<longrightarrow>
            stores w' = stores w \<and> state_activeController w' = state_activeController w
            \<and> state_currentController w' = state_currentController w)
       \<and> (\<forall>a w1. state_activeController w = Some a
              \<and> call_willMakeInactive E t a w = (Returned, w1)
              \<and> (state_accessIsUnblocked w1 \<or> 0 < state_numUnreturnedAccessCalls w1)
            \<longrightarrow> (\<exists>m. out = Threw (logic_error m))
                \<and> callbacks w' = callbacks w1 @ [(a, DidCancelMakeInactive)]
                \<and> stores w' = stores w
                \<and> state_activeController w' = Some a
                \<and> state_currentController w' = state_currentController w)"
  using assms(1)
proof (cases rule: performTransition_cases)
  case no_old
  show ?thesis
  proof (cases "out = Returned")
    case True
    with no_old transition_commit_returned [of E None new cur w w'] assms(2)
    show ?thesis by simp
  next
    case False
    with no_old transition_commit_not_returned [of E None new cur w out w']
    show ?thesis by simp
  qed
next
  case (accepted a w1)
  note f = call_willMakeInactive_fields [OF accepted(2)]
  show ?thesis
  proof (cases "out = Returned")
    case True
    from f(12) assms(2) have n: "0 \<le> state_numUnreturnedAccessCalls w1" by simp
    from transition_commit_returned [OF accepted(3) [unfolded True] n]
      transition_requirements_unmet [of w1 E a]
    have "stores w' = stores w @ [(0, False)]" "state_activeController w' = new"
      by (simp_all add: f)
    moreover have "\<not> (state_accessIsUnblocked w1 \<or> 0 < state_numUnreturnedAccessCalls w1)"
    proof
      assume "state_accessIsUnblocked w1 \<or> 0 < state_numUnreturnedAccessCalls w1"
      from transition_requirements_unmet [OF this, of E a] accepted(3) True
      show False by (auto simp: transition_commit_def)
    qed
    ultimately show ?thesis using True accepted by simp
  next
    case False
    from transition_commit_not_returned [OF accepted(3) False]
    show ?thesis using False accepted by (simp add: f)
  qed
next
  case (refused a)
  note f = call_willMakeInactive_fields [OF refused(2)]
  from refused show ?thesis by (simp add: f)
qed


theorem activeController_store_is_safe_witness:
  "0 \<le> state_numUnreturnedAccessCalls w_in_transition
   \<and> state_activeController w_in_transition = Some 1
   \<and> fst (call_willMakeInactive E_careless 7 1 w_in_transition) = Returned
   \<and> state_accessIsUnblocked (snd (call_willMakeInactive E_careless 7 1 w_in_transition))
   \<and> (\<exists>m. fst (performTransition E_careless 7 (Some 2) False w_in_transition)
              = Threw (logic_error m))
   \<and> callbacks (snd (performTransition E_careless 7 (Some 2) False w_in_transition))
        = [(1, WillMakeInactive), (1, DidCancelMakeInactive)]
   \<and> stores (snd (performTransition E_careless 7 (Some 2) False w_in_transition)) = []
   \<and> state_activeController (snd (performTransition E_careless 7 (Some 2) False w_in_transition))
        = Some 1
   \<and> fst (performTransition E_plain 7 (Some 2) False w_in_transition) = Returned
   \<and> stores (snd (performTransition E_plain 7 (Some 2) False w_in_transition)) = [(0, False)]
   \<and> state_activeController (snd (performTransition E_plain 7 (Some 2) False w_in_transition))
        = Some 2"
proof -
  let ?c = "call_willMakeInactive E_careless 7 1 w_in_transition"
  let ?p = "performTransition E_careless 7 (Some 2) False w_in_transition"
  let ?q = "performTransition E_plain 7 (Some 2) False w_in_transition"
  have n: "0 \<le> state_numUnreturnedAccessCalls w_in_transition"
    and a: "state_activeController w_in_transition = Some 1"
    and s: "stores w_in_transition = []"
    by (simp_all add: w_in_transition_def w_one_active_def fresh_access_def)
  have f: "fst ?c = Returned" by code_simp
  have u: "state_accessIsUnblocked (snd ?c)" by code_simp
  have k: "callbacks (snd ?c) = [(1, WillMakeInactive)]" by code_simp
  have q: "fst ?q = Returned" by code_simp
  have c: "?c = (Returned, snd ?c)" using f by (simp add: prod_eq_iff)
  from activeController_store_is_safe [of E_careless 7 "Some 2" False w_in_transition
      "fst ?p" "snd ?p", OF surjective_pairing n] a c u
  have "(\<exists>m. fst ?p = Threw (logic_error m))
      \<and> callbacks (snd ?p) = callbacks (snd ?c) @ [(1, DidCancelMakeInactive)]
      \<and> stores (snd ?p) = stores w_in_transition
      \<and> state_activeController (snd ?p) = Some 1"
    by auto
  moreover from activeController_store_is_safe [of E_plain 7 "Some 2" False w_in_transition
      "fst ?q" "snd ?q", OF surjective_pairing n] q
  have "stores (snd ?q) = stores w_in_transition @ [(0, False)]
      \<and> state_activeController (snd ?q) = Some 2"
    by simp
  ultimately show ?thesis using n a f u k q s by simp
qed

section \<open>Properties of the access management functions\<close>


lemma TransitionBlocker_ctor_ready:
  assumes "tb_nextNumber w = tb_readyNumber w"
  shows "TransitionBlocker_ctor t w =
           (True, w\<lparr>tb_nextNumber := tb_nextNumber w + 1,
                    state_transitionInProgress := True,
                    state_concurrentActiveControllerChangeAllowed := False,
                    state_transitionThread := t\<rparr>)"
  using assms by (simp add: TransitionBlocker_ctor_def Let_def)

lemma TransitionBlocker_ctor_not_ready:
  assumes "tb_nextNumber w \<noteq> tb_readyNumber w"
  shows "TransitionBlocker_ctor t w = (False, w\<lparr>tb_nextNumber := tb_nextNumber w + 1\<rparr>)"
  using assms by (simp add: TransitionBlocker_ctor_def Let_def)

lemma isInAccessList_cong:
  "state_currentController w1 = state_currentController w \<Longrightarrow>
     isInAccessList E c w1 = isInAccessList E c w"
  by (simp add: isInAccessList_def)

text \<open>
  Claim C8. A call of \<open>removeFromAccess\<close> whose number in the queue is ready throws a
  \<open>std::logic_error\<close> when the controller is in the access list without being the
  current controller, and returns having done nothing when the controller is not in
  the access list. In both cases no callback is made and the current and the active
  controller stay as they are.
\<close>

theorem removeFromAccess_not_current:
  assumes "tb_nextNumber w = tb_readyNumber w"
  shows "(isInAccessList E c w = Some True \<and> state_currentController w \<noteq> Some c \<longrightarrow>
            (\<exists>m. fst (removeFromAccess n E t c w) = Threw (logic_error m))
            \<and> callbacks (snd (removeFromAccess n E t c w)) = callbacks w
            \<and> state_currentController (snd (removeFromAccess n E t c w)) = state_currentController w
            \<and> state_activeController (snd (removeFromAccess n E t c w)) = state_activeController w)
       \<and> (isInAccessList E c w = Some False \<longrightarrow>
            fst (removeFromAccess n E t c w) = Returned
            \<and> callbacks (snd (removeFromAccess n E t c w)) = callbacks w
            \<and> state_currentController (snd (removeFromAccess n E t c w)) = state_currentController w
            \<and> state_activeController (snd (removeFromAccess n E t c w)) = state_activeController w)"
proof -
  let ?w1 = "w\<lparr>tb_nextNumber := tb_nextNumber w + 1,
                state_transitionInProgress := True,
                state_concurrentActiveControllerChangeAllowed := False,
                state_transitionThread := t\<rparr>"
  have i: "isInAccessList E c ?w1 = isInAccessList E c w"
    by (rule isInAccessList_cong) simp
  show ?thesis
    by (auto simp: removeFromAccess_def removeFromAccess_with_def
        TransitionBlocker_ctor_ready [OF assms] i at_scope_exit_def finishes_def
        TransitionBlocker_dtor_def)
qed

theorem removeFromAccess_not_current_witness:
  "tb_nextNumber w_one_active = tb_readyNumber w_one_active
   \<and> isInAccessList E_plain 2 w_one_active = Some True
   \<and> state_currentController w_one_active \<noteq> Some 2
   \<and> isInAccessList E_plain 3 w_one_active = Some False
   \<and> (\<exists>m. fst (removeFromAccess 1 E_plain 7 2 w_one_active) = Threw (logic_error m))
   \<and> callbacks (snd (removeFromAccess 1 E_plain 7 2 w_one_active)) = []
   \<and> fst (removeFromAccess 1 E_plain 7 3 w_one_active) = Returned
   \<and> callbacks (snd (removeFromAccess 1 E_plain 7 3 w_one_active)) = []
   \<and> state_activeController (snd (removeFromAccess 1 E_plain 7 3 w_one_active)) = Some 1"
proof -
  have r: "tb_nextNumber w_one_active = tb_readyNumber w_one_active"
    by (simp add: w_one_active_def fresh_access_def)
  have i2: "isInAccessList E_plain 2 w_one_active = Some True" by code_simp
  have i3: "isInAccessList E_plain 3 w_one_active = Some False" by code_simp
  have c: "state_currentController w_one_active = Some 1"
    "state_activeController w_one_active = Some 1" "callbacks w_one_active = []"
    by (simp_all add: w_one_active_def fresh_access_def)
  show ?thesis
    using removeFromAccess_not_current [OF r, of E_plain 2 1 7]
      removeFromAccess_not_current [OF r, of E_plain 3 1 7]
    by (simp add: r i2 i3 c)
qed


lemma transition_requirements_ok:
  assumes "\<not> state_accessIsUnblocked w" and "state_numUnreturnedAccessCalls w \<le> 0"
  shows "transition_requirements E old w = (None, w)"
  using assms by (simp add: transition_requirements_def)

lemma call_didMakeActive_fields:
  assumes "call_didMakeActive E c w = (out, w')"
  shows "callbacks w' = callbacks w @ [(c, DidMakeActive)]"
    and "state_activeController w' = state_activeController w"
    and "state_currentController w' = state_currentController w"
    and "stores w' = stores w"
    and "state_numUnreturnedAccessCalls w' = state_numUnreturnedAccessCalls w"
    and "finishes out"
  using assms
  by (auto simp: call_didMakeActive_def Let_def record_callback_def HSerial_didMakeActive_def
      finishes_def split: controller_class.splits option.splits)

lemma AccessUnblocker_dtor_fields:
  shows "callbacks (AccessUnblocker_dtor w) = callbacks w"
    and "state_activeController (AccessUnblocker_dtor w) = state_activeController w"
    and "state_currentController (AccessUnblocker_dtor w) = state_currentController w"
    and "stores (AccessUnblocker_dtor w) = stores w"
    and "hserials (AccessUnblocker_dtor w) = hserials w"
    and "state_numUnreturnedAccessCalls (AccessUnblocker_dtor w)
           = state_numUnreturnedAccessCalls w"
    and "state_accessIsUnblocked (AccessUnblocker_dtor w)"
  by (simp_all add: AccessUnblocker_dtor_def)

lemma TransitionBlocker_dtor_fields:
  shows "callbacks (TransitionBlocker_dtor w) = callbacks w"
    and "state_activeController (TransitionBlocker_dtor w) = state_activeController w"
    and "state_currentController (TransitionBlocker_dtor w) = state_currentController w"
    and "stores (TransitionBlocker_dtor w) = stores w"
    and "hserials (TransitionBlocker_dtor w) = hserials w"
    and "state_numUnreturnedAccessCalls (TransitionBlocker_dtor w)
           = state_numUnreturnedAccessCalls w"
  by (simp_all add: TransitionBlocker_dtor_def)

lemma performActiveControllerChange_order:
  assumes a: "state_activeController w = Some c1"
    and c: "call_willMakeInactive E t c1 w = (Returned, w1)"
    and b: "\<not> state_accessIsUnblocked w1"
    and n: "state_numUnreturnedAccessCalls w1 \<le> 0"
  shows "callbacks (snd (performActiveControllerChange E t (Some c2) w)) =
           callbacks w @ [(c1, WillMakeInactive), (c2, WillMakeActive),
                          (c1, DidMakeInactive), (c2, DidMakeActive)]"
    and "state_activeController (snd (performActiveControllerChange E t (Some c2) w)) = Some c2"
    and "state_currentController (snd (performActiveControllerChange E t (Some c2) w))
           = state_currentController w"
proof -
  note f = call_willMakeInactive_fields [OF c]
  let ?w4 = "call_didMakeInactive E c1
     ((call_willMakeActive c2 w1)\<lparr>state_activeController := Some c2,
        stores := stores (call_willMakeActive c2 w1)
          @ [(state_numUnreturnedAccessCalls (call_willMakeActive c2 w1),
              state_accessIsUnblocked (call_willMakeActive c2 w1))]\<rparr>)"
  have pt: "performTransition E t (Some c2) False w = (Returned, ?w4)"
    by (simp add: performTransition_def a c transition_commit_def
        transition_requirements_ok [OF b n] Let_def)
  obtain out w5 where d: "call_didMakeActive E c2 ?w4 = (out, w5)"
    by (cases "call_didMakeActive E c2 ?w4")
  note g = call_didMakeActive_fields [OF d]
  have r: "performActiveControllerChange E t (Some c2) w = (out, AccessUnblocker_dtor w5)"
    by (simp add: performActiveControllerChange_def pt d at_scope_exit_def g(6))
  show "callbacks (snd (performActiveControllerChange E t (Some c2) w)) =
           callbacks w @ [(c1, WillMakeInactive), (c2, WillMakeActive),
                          (c1, DidMakeInactive), (c2, DidMakeActive)]"
    by (simp add: r AccessUnblocker_dtor_fields g call_didMakeInactive_fields
        call_willMakeActive_def record_callback_def f)
  show "state_activeController (snd (performActiveControllerChange E t (Some c2) w)) = Some c2"
    by (simp add: r AccessUnblocker_dtor_fields g call_didMakeInactive_fields)
  show "state_currentController (snd (performActiveControllerChange E t (Some c2) w))
           = state_currentController w"
    by (simp add: r AccessUnblocker_dtor_fields g call_didMakeInactive_fields
        call_willMakeActive_def record_callback_def f)
qed

text \<open>
  Claim C5, as amended. Controller \<open>c1\<close> is active, \<open>c2\<close> is another controller of the
  access list and asks to become active, and \<open>willMakeInactive\<close> of \<open>c1\<close> accepts,
  leaving the access calls blocked and returned. Then exactly four callbacks are made,
  in the order \<open>c1.willMakeInactive\<close>, \<open>c2.willMakeActive\<close>, \<open>c1.didMakeInactive\<close>,
  \<open>c2.didMakeActive\<close>; no \<open>willRemove\<close> and no \<open>didAdd\<close> is made; afterwards \<open>c2\<close> is
  active and the current controller is the same as before.
\<close>

theorem makeActive_swap_order:
  assumes ticket: "tb_nextNumber w = tb_readyNumber w"
    and idle: "\<not> state_transitionInProgress w"
    and inlist: "isInAccessList E c2 w = Some True"
    and active: "state_activeController w = Some c1"
    and neq: "c1 \<noteq> c2"
    and accepts: "call_willMakeInactive E t c1 (snd (TransitionBlocker_ctor t w)) = (Returned, w1)"
    and blocked: "\<not> state_accessIsUnblocked w1"
    and drained: "state_numUnreturnedAccessCalls w1 \<le> 0"
  shows "callbacks (snd (makeActive n E t c2 w)) =
           callbacks w @ [(c1, WillMakeInactive), (c2, WillMakeActive),
                          (c1, DidMakeInactive), (c2, DidMakeActive)]
       \<and> state_activeController (snd (makeActive n E t c2 w)) = Some c2
       \<and> state_currentController (snd (makeActive n E t c2 w)) = state_currentController w"
proof -
  let ?w0 = "w\<lparr>tb_nextNumber := tb_nextNumber w + 1,
                state_transitionInProgress := True,
                state_concurrentActiveControllerChangeAllowed := False,
                state_transitionThread := t\<rparr>"
  note tb = TransitionBlocker_ctor_ready [OF ticket, of t]
  have w0: "state_activeController ?w0 = Some c1" "callbacks ?w0 = callbacks w"
    "state_currentController ?w0 = state_currentController w"
    by (simp_all add: active)
  have i: "isInAccessList E c2 ?w0 = Some True"
    using inlist isInAccessList_cong [OF w0(3), of E c2] by simp
  have s: "shouldPerformConcurrentActiveControllerChange E t c2 w = Some False"
    using idle by (simp add: shouldPerformConcurrentActiveControllerChange_def)
  from accepts have acc: "call_willMakeInactive E t c1 ?w0 = (Returned, w1)"
    by (simp add: tb)
  note o = performActiveControllerChange_order [OF w0(1) acc blocked drained, of c2]
  have m: "makeActive n E t c2 w =
      at_scope_exit TransitionBlocker_dtor (performActiveControllerChange E t (Some c2) ?w0)"
    using neq by (simp add: makeActive_def makeActive_with_def s tb i active)
  show ?thesis
    unfolding m at_scope_exit_def
    by (simp add: split_beta TransitionBlocker_dtor_fields o)
qed

theorem makeActive_swap_order_witness:
  "tb_nextNumber w_one_active = tb_readyNumber w_one_active
   \<and> \<not> state_transitionInProgress w_one_active
   \<and> isInAccessList E_plain 2 w_one_active = Some True
   \<and> state_activeController w_one_active = Some 1
   \<and> fst (call_willMakeInactive E_plain 7 1 (snd (TransitionBlocker_ctor 7 w_one_active))) = Returned
   \<and> callbacks (snd (makeActive 1 E_plain 7 2 w_one_active)) =
        [(1, WillMakeInactive), (2, WillMakeActive), (1, DidMakeInactive), (2, DidMakeActive)]
   \<and> state_activeController (snd (makeActive 1 E_plain 7 2 w_one_active)) = Some 2
   \<and> state_currentController (snd (makeActive 1 E_plain 7 2 w_one_active)) = Some 1"
proof -
  let ?r = "call_willMakeInactive E_plain 7 1 (snd (TransitionBlocker_ctor 7 w_one_active))"
  have t: "tb_nextNumber w_one_active = tb_readyNumber w_one_active"
    and i: "\<not> state_transitionInProgress w_one_active"
    and a: "state_activeController w_one_active = Some 1"
    and c: "callbacks w_one_active = []" "state_currentController w_one_active = Some 1"
    by (simp_all add: w_one_active_def fresh_access_def)
  have l: "isInAccessList E_plain 2 w_one_active = Some True" by code_simp
  have f: "fst ?r = Returned" by code_simp
  have b: "\<not> state_accessIsUnblocked (snd ?r)" by code_simp
  have d: "state_numUnreturnedAccessCalls (snd ?r) \<le> 0" by code_simp
  have r: "?r = (Returned, snd ?r)" using f by (simp add: prod_eq_iff)
  show ?thesis
    using makeActive_swap_order [OF t i l a _ r b d, of 1] t i l a c f by simp
qed

text \<open>
  The order stated in claim C5 (\<open>c1.didMakeInactive\<close> before \<open>c2.willMakeActive\<close>) is
  not the order of the code: \<open>willMakeActive\<close> of the incoming controller is called
  before the store, \<open>didMakeInactive\<close> of the outgoing one after it.
\<close>

theorem swap_order_counterexample:
  "isInAccessList E_plain 1 w_one_active = Some True
   \<and> isInAccessList E_plain 2 w_one_active = Some True
   \<and> state_activeController w_one_active = Some 1
   \<and> fst (makeActive 1 E_plain 7 2 w_one_active) = Returned
   \<and> callbacks (snd (makeActive 1 E_plain 7 2 w_one_active)) =
        [(1, WillMakeInactive), (2, WillMakeActive), (1, DidMakeInactive), (2, DidMakeActive)]
   \<and> callbacks (snd (makeActive 1 E_plain 7 2 w_one_active)) \<noteq>
        [(1, WillMakeInactive), (1, DidMakeInactive), (2, WillMakeActive), (2, DidMakeActive)]"
  by code_simp

section \<open>Properties of willMakeInactive\<close>


lemma blockAccessCalls_in_callback:
  assumes "state_transitionInProgress w" "state_transitionThread w = t"
    "state_activeController w = Some c"
  shows "blockAccessCalls E t c w = Inr (w\<lparr>state_accessIsUnblocked := False\<rparr>)"
  using assms
  by (simp add: blockAccessCalls_def throwIfNotTransitionCorrect_def
      throwIfNotActiveController_def)

lemma waitForAllAccessCallsToReturn_in_callback:
  assumes "state_transitionInProgress w" "state_transitionThread w = t"
    "state_activeController w = Some c"
  shows "waitForAllAccessCallsToReturn E t c timeout w
           = Inr (wait_for_allAccessCallsReturned E timeout w)"
  using assms
  by (simp add: waitForAllAccessCallsToReturn_def throwIfNotTransitionCorrect_def
      throwIfNotActiveController_def)

lemma wait_for_drains:
  assumes "drains_within E w timeout"
  shows "fst (wait_for_allAccessCallsReturned E timeout w)"
    and "state_numUnreturnedAccessCalls (snd (wait_for_allAccessCallsReturned E timeout w)) = 0"
    and "waited (snd (wait_for_allAccessCallsReturned E timeout w)) \<le> waited w + timeout"
    and "state_accessIsUnblocked (snd (wait_for_allAccessCallsReturned E timeout w))
           = state_accessIsUnblocked w"
  using assms
  by (auto simp: drains_within_def wait_for_allAccessCallsReturned_def split: option.splits)

lemma wait_for_times_out:
  assumes "\<not> drains_within E w timeout"
  shows "\<not> fst (wait_for_allAccessCallsReturned E timeout w)"
    and "waited (snd (wait_for_allAccessCallsReturned E timeout w)) = waited w + timeout"
    and "state_accessIsUnblocked (snd (wait_for_allAccessCallsReturned E timeout w))
           = state_accessIsUnblocked w"
  using assms
  by (auto simp: drains_within_def wait_for_allAccessCallsReturned_def split: option.splits)

lemma drains_within_blocked [simp]:
  "drains_within E (w\<lparr>state_accessIsUnblocked := b\<rparr>) timeout = drains_within E w timeout"
  by (simp add: drains_within_def)

lemma HSerialController_willMakeInactive_drain:
  assumes "state_transitionInProgress w" "state_transitionThread w = t"
    "state_activeController w = Some c"
  shows "case HSerialController_willMakeInactive E t c w of (out, w') \<Rightarrow>
           \<not> state_accessIsUnblocked w' \<and> waited w' \<le> waited w + 1500
           \<and> (if drains_within E w 1500
                then out = Returned \<and> state_numUnreturnedAccessCalls w' = 0
                else out = Threw (ControllerRefuses c ''Access calls have not returned.'')
                     \<and> waited w' = waited w + 1500)"
proof -
  let ?w1 = "w\<lparr>state_accessIsUnblocked := False\<rparr>"
  let ?r = "wait_for_allAccessCallsReturned E 1500 ?w1"
  have b: "blockAccessCalls E t c w = Inr ?w1"
    using assms by (rule blockAccessCalls_in_callback)
  have wt: "waitForAllAccessCallsToReturn E t c 1500 ?w1 = Inr ?r"
    using assms by (simp add: waitForAllAccessCallsToReturn_in_callback)
  show ?thesis
  proof (cases "drains_within E w 1500")
    case True
    then have d: "drains_within E ?w1 1500" by simp
    from wait_for_drains [OF d] True show ?thesis
      by (simp add: HSerialController_willMakeInactive_def b wt split_beta)
  next
    case False
    then have d: "\<not> drains_within E ?w1 1500" by simp
    from wait_for_times_out [OF d] False show ?thesis
      by (simp add: HSerialController_willMakeInactive_def b wt split_beta)
  qed
qed

lemma HSerial_willMakeInactive_drain:
  assumes "state_transitionInProgress w" "state_transitionThread w = t"
    "state_activeController w = Some c"
    and "\<not> (transitionInitiatedExternally t (hserials w c) \<and> isLocked (hserials w c))"
  shows "case HSerial_willMakeInactive E t c w of (out, w') \<Rightarrow>
           \<not> state_accessIsUnblocked w' \<and> waited w' \<le> waited w + 1000
           \<and> (if drains_within E w 1000
                then out = Returned \<and> state_numUnreturnedAccessCalls w' = 0
                else out = Threw (ControllerRefuses c
                       (''The controller is using the port. Controller: ''
                          @ getDescription E c @ ''.''))
                     \<and> waited w' = waited w + 1000)"
proof -
  let ?w1 = "w\<lparr>state_accessIsUnblocked := False\<rparr>"
  let ?r = "wait_for_allAccessCallsReturned E 1000 ?w1"
  have b: "blockAccessCalls E t c w = Inr ?w1"
    using assms(1-3) by (rule blockAccessCalls_in_callback)
  have wt: "waitForAllAccessCallsToReturn E t c 1000 ?w1 = Inr ?r"
    using assms(1-3) by (simp add: waitForAllAccessCallsToReturn_in_callback)
  show ?thesis
  proof (cases "drains_within E w 1000")
    case True
    then have d: "drains_within E ?w1 1000" by simp
    from wait_for_drains [OF d] True assms(4) show ?thesis
      by (simp add: HSerial_willMakeInactive_def b wt split_beta)
  next
    case False
    then have d: "\<not> drains_within E ?w1 1000" by simp
    from wait_for_times_out [OF d] False assms(4) show ?thesis
      by (simp add: HSerial_willMakeInactive_def b wt split_beta)
  qed
qed

text \<open>
  Claim C6. Called as a callback of the running transition on the active controller,
  the default \<open>willMakeInactive\<close> of HSerialController blocks the access calls, waits
  no longer than 1500 ms, returns if the unreturned access calls have returned by then
  and throws \<open>ControllerRefuses\<close> otherwise, after the full 1500 ms. The override of
  HSerial, when it does not refuse for being locked, does the same with 1000 ms.
\<close>

theorem willMakeInactive_drain_timeouts:
  assumes "state_transitionInProgress w" "state_transitionThread w = t"
    "state_activeController w = Some c"
  shows "(case HSerialController_willMakeInactive E t c w of (out, w') \<Rightarrow>
           \<not> state_accessIsUnblocked w' \<and> waited w' \<le> waited w + 1500
           \<and> (if drains_within E w 1500
                then out = Returned \<and> state_numUnreturnedAccessCalls w' = 0
                else out = Threw (ControllerRefuses c ''Access calls have not returned.'')
                     \<and> waited w' = waited w + 1500))
       \<and> (\<not> (transitionInitiatedExternally t (hserials w c) \<and> isLocked (hserials w c)) \<longrightarrow>
           (case HSerial_willMakeInactive E t c w of (out, w') \<Rightarrow>
              \<not> state_accessIsUnblocked w' \<and> waited w' \<le> waited w + 1000
              \<and> (if drains_within E w 1000
                   then out = Returned \<and> state_numUnreturnedAccessCalls w' = 0
                   else out = Threw (ControllerRefuses c
                          (''The controller is using the port. Controller: ''
                             @ getDescription E c @ ''.''))
                        \<and> waited w' = waited w + 1000)))"
proof (intro conjI impI)
  show "case HSerialController_willMakeInactive E t c w of (out, w') \<Rightarrow>
           \<not> state_accessIsUnblocked w' \<and> waited w' \<le> waited w + 1500
           \<and> (if drains_within E w 1500
                then out = Returned \<and> state_numUnreturnedAccessCalls w' = 0
                else out = Threw (ControllerRefuses c ''Access calls have not returned.'')
                     \<and> waited w' = waited w + 1500)"
    by (rule HSerialController_willMakeInactive_drain [OF assms])
next
  assume "\<not> (transitionInitiatedExternally t (hserials w c) \<and> isLocked (hserials w c))"
  then show "case HSerial_willMakeInactive E t c w of (out, w') \<Rightarrow>
              \<not> state_accessIsUnblocked w' \<and> waited w' \<le> waited w + 1000
              \<and> (if drains_within E w 1000
                   then out = Returned \<and> state_numUnreturnedAccessCalls w' = 0
                   else out = Threw (ControllerRefuses c
                          (''The controller is using the port. Controller: ''
                             @ getDescription E c @ ''.''))
                        \<and> waited w' = waited w + 1000)"
    by (rule HSerial_willMakeInactive_drain [OF assms])
qed

theorem willMakeInactive_drain_timeouts_witness:
  "state_transitionInProgress w_reading \<and> state_transitionThread w_reading = 7
   \<and> state_activeController w_reading = Some 1
   \<and> \<not> isLocked (hserials w_reading 1)
   \<and> drains_within E_reading w_reading 1500 \<and> \<not> drains_within E_reading w_reading 1000
   \<and> fst (HSerialController_willMakeInactive E_reading 7 1 w_reading) = Returned
   \<and> waited (snd (HSerialController_willMakeInactive E_reading 7 1 w_reading)) = 1200
   \<and> \<not> state_accessIsUnblocked (snd (HSerialController_willMakeInactive E_reading 7 1 w_reading))
   \<and> fst (HSerial_willMakeInactive E_reading 7 1 w_reading)
        = Threw (ControllerRefuses 1 ''The controller is using the port. Controller: controller.'')
   \<and> waited (snd (HSerial_willMakeInactive E_reading 7 1 w_reading)) = 1000
   \<and> \<not> state_accessIsUnblocked (snd (HSerial_willMakeInactive E_reading 7 1 w_reading))"
proof -
  have a: "state_transitionInProgress w_reading" "state_transitionThread w_reading = 7"
    "state_activeController w_reading = Some 1"
    by (simp_all add: w_reading_def w_in_transition_def w_one_active_def fresh_access_def)
  have l: "\<not> isLocked (hserials w_reading 1)" by code_simp
  have d: "drains_within E_reading w_reading 1500" "\<not> drains_within E_reading w_reading 1000"
    by code_simp+
  have w0: "waited w_reading = 0"
    by (simp add: w_reading_def w_in_transition_def w_one_active_def fresh_access_def)
  have g: "getDescription E_reading 1 = ''controller''" by code_simp
  have w1: "waited (snd (HSerialController_willMakeInactive E_reading 7 1 w_reading)) = 1200"
    by code_simp
  show ?thesis
    using willMakeInactive_drain_timeouts [OF a, of E_reading] a l d w0 g w1
    by (simp add: split_beta)
qed


lemma blockAccessCalls_throws: "blockAccessCalls E t c w = Inl e \<Longrightarrow> \<exists>m. e = logic_error m"
  by (auto simp: blockAccessCalls_def throwIfNotTransitionCorrect_def
      throwIfNotActiveController_def split: option.splits if_splits)

lemma waitForAllAccessCallsToReturn_throws:
  "waitForAllAccessCallsToReturn E t c timeout w = Inl e \<Longrightarrow> \<exists>m. e = logic_error m"
  by (auto simp: waitForAllAccessCallsToReturn_def throwIfNotTransitionCorrect_def
      throwIfNotActiveController_def split: option.splits if_splits)

lemma HSerial_willMakeInactive_locked_iff:
  "fst (HSerial_willMakeInactive E t c w) = Threw (ControllerRefuses c ''The controller is locked.'')
   \<longleftrightarrow> transitionInitiatedExternally t (hserials w c) \<and> isLocked (hserials w c)"
  by (auto simp: HSerial_willMakeInactive_def split: sum.splits prod.splits if_splits
      dest: blockAccessCalls_throws waitForAllAccessCallsToReturn_throws)

lemma HSerial_willMakeInactive_self_initiated:
  assumes "\<not> transitionInitiatedExternally t (hserials w c)"
  shows "fst (HSerial_willMakeInactive E t c (modify_hserial c (\<lambda>h. h\<lparr>isLocked := b\<rparr>) w))
           = fst (HSerial_willMakeInactive E t c w)"
proof -
  let ?w = "modify_hserial c (\<lambda>h. h\<lparr>isLocked := b\<rparr>) w"
  have e: "\<not> transitionInitiatedExternally t (hserials ?w c)"
    using assms by (simp add: modify_hserial_def transitionInitiatedExternally_def)
  have bl: "blockAccessCalls E t c ?w
      = map_sum id (modify_hserial c (\<lambda>h. h\<lparr>isLocked := b\<rparr>)) (blockAccessCalls E t c w)"
    by (simp add: blockAccessCalls_def throwIfNotTransitionCorrect_def
        throwIfNotActiveController_def modify_hserial_def split: option.splits)
  have wt: "waitForAllAccessCallsToReturn E t c timeout (modify_hserial c f w1)
      = map_sum id (map_prod id (modify_hserial c f))
          (waitForAllAccessCallsToReturn E t c timeout w1)" for timeout f w1
    by (simp add: waitForAllAccessCallsToReturn_def throwIfNotTransitionCorrect_def
        throwIfNotActiveController_def modify_hserial_def wait_for_allAccessCallsReturned_def
        split: option.splits)
  show ?thesis
    using assms e
    by (simp add: HSerial_willMakeInactive_def bl wt split: sum.splits prod.splits)
qed

lemma HSerial_didMakeInactive_unlocks:
  "\<not> isLocked (hserials (HSerial_didMakeInactive c w) c)"
  "\<not> isLockedActive_var (hserials (HSerial_didMakeInactive c w) c)"
  by (simp_all add: HSerial_didMakeInactive_def)

lemma performActiveControllerChange_inactive:
  assumes a: "state_activeController w = Some c1"
    and c: "call_willMakeInactive E t c1 w = (Returned, w1)"
    and b: "\<not> state_accessIsUnblocked w1"
    and n: "state_numUnreturnedAccessCalls w1 \<le> 0"
  shows "performActiveControllerChange E t None w =
           (Returned, AccessUnblocker_dtor (call_didMakeInactive E c1
              (w1\<lparr>state_activeController := None,
                  stores := stores w1
                    @ [(state_numUnreturnedAccessCalls w1, state_accessIsUnblocked w1)]\<rparr>)))"
  by (simp add: performActiveControllerChange_def performTransition_def a c
      transition_commit_def transition_requirements_ok [OF b n] Let_def at_scope_exit_def
      finishes_def)

lemma HSerial_makeInactive_self:
  assumes cls: "classOf E c = HSerial"
    and active: "state_activeController w = Some c"
    and ticket: "tb_nextNumber w = tb_readyNumber w"
    and idle: "\<not> state_transitionInProgress w"
    and drains: "drains_within E w 1000"
  shows "fst (HSerial_makeInactive E t c w) = Returned"
    and "state_activeController (snd (HSerial_makeInactive E t c w)) = None"
    and "\<not> isLocked (hserials (snd (HSerial_makeInactive E t c w)) c)"
    and "\<not> isLockedActive_var (hserials (snd (HSerial_makeInactive E t c w)) c)"
    and "callbacks (snd (HSerial_makeInactive E t c w))
           = callbacks w @ [(c, WillMakeInactive), (c, DidMakeInactive)]"
proof -
  let ?g = "AccessManagementGuard_ctor t c w"
  let ?w0 = "?g\<lparr>tb_nextNumber := tb_nextNumber ?g + 1,
                state_transitionInProgress := True,
                state_concurrentActiveControllerChangeAllowed := False,
                state_transitionThread := t\<rparr>"
  let ?w0' = "record_callback c WillMakeInactive ?w0"
  have g: "tb_nextNumber ?g = tb_readyNumber ?g" "\<not> state_transitionInProgress ?g"
    "state_activeController ?g = Some c" "callbacks ?g = callbacks w"
    using ticket idle active by (simp_all add: AccessManagementGuard_ctor_def modify_hserial_def)
  have s: "shouldPerformConcurrentActiveControllerChange E t c ?g = Some False"
    using g(2) by (simp add: shouldPerformConcurrentActiveControllerChange_def)
  note tb = TransitionBlocker_ctor_ready [OF g(1), of t]
  have ctx: "state_transitionInProgress ?w0'" "state_transitionThread ?w0' = t"
    "state_activeController ?w0' = Some c"
    using g(3) by (simp_all add: record_callback_def)
  have self: "\<not> (transitionInitiatedExternally t (hserials ?w0' c) \<and> isLocked (hserials ?w0' c))"
    by (simp add: record_callback_def AccessManagementGuard_ctor_def modify_hserial_def
        transitionInitiatedExternally_def)
  have dr: "drains_within E ?w0' 1000"
    using drains
    by (simp add: drains_within_def record_callback_def AccessManagementGuard_ctor_def
        modify_hserial_def)
  obtain out w1 where h: "HSerial_willMakeInactive E t c ?w0' = (out, w1)"
    by (cases "HSerial_willMakeInactive E t c ?w0'")
  from HSerial_willMakeInactive_drain [OF ctx self, of E] dr h
  have o: "out = Returned" and b: "\<not> state_accessIsUnblocked w1"
    and n: "state_numUnreturnedAccessCalls w1 \<le> 0"
    by simp_all
  have cw: "call_willMakeInactive E t c ?w0 = (Returned, w1)"
    using h o by (simp add: call_willMakeInactive_def cls)
  note f = call_willMakeInactive_fields [OF cw]
  have a0: "state_activeController ?w0 = Some c" using g(3) by simp
  note p = performActiveControllerChange_inactive [OF a0 cw b n]
  have m: "makeInactive E t c ?g =
      at_scope_exit TransitionBlocker_dtor (performActiveControllerChange E t None ?w0)"
    using g(3) by (simp add: makeInactive_def s tb)
  have r: "HSerial_makeInactive E t c w =
      at_scope_exit (AccessManagementGuard_dtor c)
        (at_scope_exit TransitionBlocker_dtor (performActiveControllerChange E t None ?w0))"
    by (simp add: HSerial_makeInactive_def Let_def m)
  show "fst (HSerial_makeInactive E t c w) = Returned"
    by (simp add: r p at_scope_exit_def finishes_def)
  show "state_activeController (snd (HSerial_makeInactive E t c w)) = None"
    by (simp add: r p at_scope_exit_def finishes_def AccessManagementGuard_dtor_def
        modify_hserial_def TransitionBlocker_dtor_fields AccessUnblocker_dtor_fields
        call_didMakeInactive_fields)
  show "\<not> isLocked (hserials (snd (HSerial_makeInactive E t c w)) c)"
    by (simp add: r p at_scope_exit_def finishes_def AccessManagementGuard_dtor_def
        modify_hserial_def TransitionBlocker_dtor_fields AccessUnblocker_dtor_fields
        call_didMakeInactive_def cls HSerial_didMakeInactive_def Let_def)
  show "\<not> isLockedActive_var (hserials (snd (HSerial_makeInactive E t c w)) c)"
    by (simp add: r p at_scope_exit_def finishes_def AccessManagementGuard_dtor_def
        modify_hserial_def TransitionBlocker_dtor_fields AccessUnblocker_dtor_fields
        call_didMakeInactive_def cls HSerial_didMakeInactive_def Let_def)
  show "callbacks (snd (HSerial_makeInactive E t c w))
           = callbacks w @ [(c, WillMakeInactive), (c, DidMakeInactive)]"
    by (simp add: r p at_scope_exit_def finishes_def AccessManagementGuard_dtor_def
        modify_hserial_def TransitionBlocker_dtor_fields AccessUnblocker_dtor_fields
        call_didMakeInactive_fields f g(4))
qed

text \<open>
  Claim C7. \<open>HSerial::willMakeInactive\<close> throws \<open>ControllerRefuses\<close> with the text
  "The controller is locked." exactly when the transition was initiated externally
  (no access management call of this controller is in progress, or it runs on another
  thread) and \<open>isLocked\<close> is set. When the transition is self-initiated the outcome does
  not depend on \<open>isLocked\<close>. \<open>didMakeInactive\<close> clears \<open>isLocked\<close> and \<open>_isLockedActive\<close>;
  so a \<open>makeInactive\<close> of an active HSerial on its own thread, with the access calls
  returning in time, succeeds whether locked or not and leaves both flags cleared.
\<close>

theorem HSerial_refuses_when_locked:
  "(fst (HSerial_willMakeInactive E t c w)
        = Threw (ControllerRefuses c ''The controller is locked.'')
      \<longleftrightarrow> transitionInitiatedExternally t (hserials w c) \<and> isLocked (hserials w c))
   \<and> (transitionInitiatedExternally t (hserials w c)
        \<longleftrightarrow> \<not> am_callInProgress (hserials w c) \<or> am_callThread (hserials w c) \<noteq> t)
   \<and> (\<not> transitionInitiatedExternally t (hserials w c) \<longrightarrow>
        fst (HSerial_willMakeInactive E t c (modify_hserial c (\<lambda>h. h\<lparr>isLocked := b\<rparr>) w))
          = fst (HSerial_willMakeInactive E t c w))
   \<and> \<not> isLocked (hserials (HSerial_didMakeInactive c w) c)
   \<and> \<not> isLockedActive_var (hserials (HSerial_didMakeInactive c w) c)
   \<and> (classOf E c = HSerial \<and> state_activeController w = Some c
        \<and> tb_nextNumber w = tb_readyNumber w \<and> \<not> state_transitionInProgress w
        \<and> drains_within E w 1000 \<longrightarrow>
        fst (HSerial_makeInactive E t c w) = Returned
        \<and> state_activeController (snd (HSerial_makeInactive E t c w)) = None
        \<and> \<not> isLocked (hserials (snd (HSerial_makeInactive E t c w)) c)
        \<and> \<not> isLockedActive_var (hserials (snd (HSerial_makeInactive E t c w)) c))"
  using HSerial_willMakeInactive_locked_iff [of E t c w]
    HSerial_willMakeInactive_self_initiated [of t w c E b]
    HSerial_didMakeInactive_unlocks [of c w]
    HSerial_makeInactive_self [of E c w t]
  by (simp add: transitionInitiatedExternally_def)

theorem HSerial_refuses_when_locked_witness:
  "transitionInitiatedExternally 8 (hserials w_locked 1) \<and> isLocked (hserials w_locked 1)
   \<and> fst (HSerial_willMakeInactive E_hserial 8 1 w_locked)
        = Threw (ControllerRefuses 1 ''The controller is locked.'')
   \<and> classOf E_hserial 1 = HSerial \<and> state_activeController w_locked = Some 1
   \<and> tb_nextNumber w_locked = tb_readyNumber w_locked \<and> \<not> state_transitionInProgress w_locked
   \<and> drains_within E_hserial w_locked 1000
   \<and> fst (HSerial_makeInactive E_hserial 7 1 w_locked) = Returned
   \<and> state_activeController (snd (HSerial_makeInactive E_hserial 7 1 w_locked)) = None
   \<and> \<not> isLocked (hserials (snd (HSerial_makeInactive E_hserial 7 1 w_locked)) 1)
   \<and> \<not> isLockedActive_var (hserials (snd (HSerial_makeInactive E_hserial 7 1 w_locked)) 1)"
proof -
  have e: "transitionInitiatedExternally 8 (hserials w_locked 1)" by code_simp
  have l: "isLocked (hserials w_locked 1)" by code_simp
  have c: "classOf E_hserial 1 = HSerial" by code_simp
  have a: "state_activeController w_locked = Some 1"
    "tb_nextNumber w_locked = tb_readyNumber w_locked" "\<not> state_transitionInProgress w_locked"
    by (simp_all add: w_locked_def w_one_active_def fresh_access_def)
  have d: "drains_within E_hserial w_locked 1000" by code_simp
  show ?thesis
    using HSerial_refuses_when_locked [of E_hserial 8 1 w_locked True]
      HSerial_refuses_when_locked [of E_hserial 7 1 w_locked True] e l c a d
    by simp
qed

section \<open>Properties of a current controller change\<close>








section \<open>Properties of a refused request\<close>

























section \<open>Requests sent from inside a transition\<close>

text \<open>
  A request that a \<open>willRemove\<close> callback sends while the transition holds the queue of
  the TransitionBlocker either is a concurrent active controller change or waits in that
  queue. It leaves the queue numbers and the current controller alone, and one level of
  \<open>handle_request\<close> is all that is ever used.
\<close>

declare handle_request.simps [simp del]

lemma for_each_recording:
  assumes "\<And>x w. f x w = record_callback x cb w"
  shows "for_each f xs w = w\<lparr>callbacks := callbacks w @ map (\<lambda>x. (x, cb)) xs\<rparr>"
  unfolding for_each_def
  by (induction xs arbitrary: w) (simp_all add: assms record_callback_def)

lemmas for_each_didCancelRemove =
  for_each_recording [of call_didCancelRemove DidCancelRemove, OF call_didCancelRemove_def]
lemmas for_each_didRemove =
  for_each_recording [of call_didRemove DidRemove, OF call_didRemove_def]
lemmas for_each_didAdd =
  for_each_recording [of call_didAdd DidAdd, OF call_didAdd_def]

lemma queue_frame_refl [simp]: "queue_frame w w"
  by (simp add: queue_frame_def)

lemma queue_frame_trans: "queue_frame w w1 \<Longrightarrow> queue_frame w1 w2 \<Longrightarrow> queue_frame w w2"
  by (simp add: queue_frame_def)

lemma queue_frame_simps [simp]:
  "queue_frame w (record_callback c cb w)"
  "queue_frame w (AccessUnblocker_dtor w)"
  "queue_frame w (w\<lparr>state_concurrentActiveControllerChangeAllowed := b\<rparr>)"
  "queue_frame w (for_each call_didCancelRemove xs w)"
  by (simp_all add: queue_frame_def record_callback_def AccessUnblocker_dtor_def
      for_each_didCancelRemove)

lemma call_willMakeInactive_queue_frame:
  "call_willMakeInactive E t c w = (out, w1) \<Longrightarrow> queue_frame w w1"
  by (simp add: queue_frame_def call_willMakeInactive_fields)

lemma transition_commit_queue_frame:
  "queue_frame w (snd (transition_commit E old new False w))"
proof -
  obtain eo w1 where r: "transition_requirements E old w = (eo, w1)"
    by (cases "transition_requirements E old w")
  show ?thesis
  proof (cases eo)
    case None
    from transition_requirements_met(1) [OF r [unfolded None]] show ?thesis
      by (simp add: transition_commit_def r None Let_def queue_frame_def call_willMakeActive_def
          record_callback_def call_didMakeInactive_def HSerial_didMakeInactive_def
          split: option.splits controller_class.splits)
  next
    case (Some e)
    have "tb_nextNumber w1 = tb_nextNumber w" "tb_readyNumber w1 = tb_readyNumber w"
      using r by (auto simp: transition_requirements_def split: if_splits option.splits)
    with transition_requirements_throws [OF r [unfolded Some]] show ?thesis
      by (simp add: transition_commit_def r Some queue_frame_def call_didCancelMakeInactive_def
          record_callback_def split: option.splits)
  qed
qed

lemma performTransition_queue_frame:
  "queue_frame w (snd (performTransition E t new False w))"
proof (cases "state_activeController w")
  case None
  then show ?thesis
    by (simp add: performTransition_def transition_commit_queue_frame)
next
  case (Some a)
  obtain o1 w1 where c: "call_willMakeInactive E t a w = (o1, w1)"
    by (cases "call_willMakeInactive E t a w")
  note f = call_willMakeInactive_queue_frame [OF c]
  show ?thesis
  proof (cases "o1 = Returned")
    case True
    with Some c f transition_commit_queue_frame [of w1 E "Some a" new] show ?thesis
      by (auto simp: performTransition_def intro: queue_frame_trans)
  next
    case False
    with Some c f show ?thesis
      by (auto simp: performTransition_def split: outcome.splits)
  qed
qed

lemma call_didMakeActive_queue_frame:
  "queue_frame w (snd (call_didMakeActive E c w))"
  by (simp add: call_didMakeActive_def Let_def queue_frame_def record_callback_def
      HSerial_didMakeActive_def split: controller_class.splits option.splits)

lemma at_scope_exit_snd:
  "snd (at_scope_exit dtor r) = (if finishes (fst r) then dtor (snd r) else snd r)"
  by (cases r) (simp add: at_scope_exit_def)

lemma at_scope_exit_fst [simp]: "fst (at_scope_exit dtor r) = fst r"
  by (cases r) (simp add: at_scope_exit_def)

lemma performActiveControllerChange_queue_frame:
  "queue_frame w (snd (performActiveControllerChange E t new w))"
proof -
  obtain o1 w1 where p: "performTransition E t new False w = (o1, w1)"
    by (cases "performTransition E t new False w")
  from performTransition_queue_frame [of w E t new] p have f: "queue_frame w w1" by simp
  have "queue_frame w1 (snd (case new of Some n \<Rightarrow> call_didMakeActive E n w1
      | None \<Rightarrow> (Returned, w1)))"
    by (simp add: call_didMakeActive_queue_frame split: option.splits)
  with f have g: "queue_frame w (snd (case new of Some n \<Rightarrow> call_didMakeActive E n w1
      | None \<Rightarrow> (Returned, w1)))"
    by (rule queue_frame_trans)
  have u: "queue_frame w x \<Longrightarrow> queue_frame w (AccessUnblocker_dtor x)" for x
    by (simp add: queue_frame_def AccessUnblocker_dtor_def)
  show ?thesis
    using f g u
    by (cases o1) (simp_all add: performActiveControllerChange_def p at_scope_exit_snd)
qed

text \<open>
  While a transition holds the queue, the next number differs from the ready number:
  a request that does not take the concurrent path waits for ever, and the request
  handler passed to \<open>makeActive_with\<close> is never called.
\<close>

lemma TransitionBlocker_ctor_holds_queue:
  assumes "TransitionBlocker_ctor t w = (True, w1)"
  shows "tb_nextNumber w1 \<noteq> tb_readyNumber w1"
    and "state_currentController w1 = state_currentController w"
  using assms by (auto simp: TransitionBlocker_ctor_def Let_def split: if_splits)

lemma makeActive_with_queue_held:
  assumes J: "tb_nextNumber w \<noteq> tb_readyNumber w"
  shows "makeActive_with h E t c w =
     (case shouldPerformConcurrentActiveControllerChange E t c w of
        None \<Rightarrow> (Diverges, w)
      | Some True \<Rightarrow>
          if Some c \<noteq> state_activeController w
          then performActiveControllerChange E t (Some c) w
          else (Returned, w)
      | Some False \<Rightarrow> (Blocks, w\<lparr>tb_nextNumber := tb_nextNumber w + 1\<rparr>))"
  by (simp add: makeActive_with_def TransitionBlocker_ctor_not_ready [OF J]
      split: option.splits bool.splits)

lemma makeInactive_queue_held:
  assumes J: "tb_nextNumber w \<noteq> tb_readyNumber w"
  shows "makeInactive E t c w =
     (case shouldPerformConcurrentActiveControllerChange E t c w of
        None \<Rightarrow> (Diverges, w)
      | Some True \<Rightarrow>
          if Some c = state_activeController w
          then performActiveControllerChange E t None w
          else (Returned, w)
      | Some False \<Rightarrow> (Blocks, w\<lparr>tb_nextNumber := tb_nextNumber w + 1\<rparr>))"
  by (simp add: makeInactive_def TransitionBlocker_ctor_not_ready [OF J]
      split: option.splits bool.splits)

lemma handle_request_queue_held:
  assumes J: "tb_nextNumber w \<noteq> tb_readyNumber w"
  shows "handle_request (Suc n) E t r w = handle_request (Suc 0) E t r w"
  by (cases r) (simp_all add: handle_request.simps makeActive_with_queue_held [OF J])

lemma handle_request_frame:
  assumes J: "tb_nextNumber w \<noteq> tb_readyNumber w"
    and H: "handle_request n E t r w = (out, w')"
  shows "state_currentController w' = state_currentController w"
    and "finishes out \<Longrightarrow> queue_frame w w'"
proof -
  have *: "state_currentController w' = state_currentController w
      \<and> (finishes out \<longrightarrow> queue_frame w w')"
  proof (cases n)
    case 0
    with H show ?thesis by (simp add: finishes_def handle_request.simps)
  next
    case (Suc m)
    show ?thesis
    proof (cases r)
      case (MakeActiveRequest c)
      with H Suc have m: "makeActive_with (handle_request m E t) E t c w = (out, w')"
        by (simp add: handle_request.simps)
      from m [unfolded makeActive_with_queue_held [OF J]]
        performActiveControllerChange_queue_frame [of w E t "Some c"]
      show ?thesis
        by (auto simp: finishes_def queue_frame_def split: option.splits bool.splits if_splits)
    next
      case (MakeInactiveRequest c)
      with H Suc have m: "makeInactive E t c w = (out, w')"
        by (simp add: handle_request.simps)
      from m [unfolded makeInactive_queue_held [OF J]]
        performActiveControllerChange_queue_frame [of w E t None]
      show ?thesis
        by (auto simp: finishes_def queue_frame_def split: option.splits bool.splits if_splits)
    qed
  qed
  from * show "state_currentController w' = state_currentController w" by simp
  from * show "finishes out \<Longrightarrow> queue_frame w w'" by simp
qed

lemma queue_frame_held:
  "queue_frame w w' \<Longrightarrow> tb_nextNumber w \<noteq> tb_readyNumber w \<Longrightarrow>
     tb_nextNumber w' \<noteq> tb_readyNumber w'"
  by (simp add: queue_frame_def)

lemma run_requests_frame:
  assumes "tb_nextNumber w \<noteq> tb_readyNumber w"
    and "run_requests (handle_request n E t) rs w = (out, w')"
  shows "state_currentController w' = state_currentController w
       \<and> (finishes out \<longrightarrow> queue_frame w w')"
  using assms
proof (induction rs arbitrary: w)
  case Nil
  then show ?case by simp
next
  case (Cons r rs)
  obtain o1 w1 where h: "handle_request n E t r w = (o1, w1)"
    by (cases "handle_request n E t r w")
  note f = handle_request_frame [OF Cons.prems(1) h]
  show ?case
  proof (cases "o1 = Returned")
    case True
    then have q: "queue_frame w w1" using f(2) by (simp add: finishes_def)
    from Cons.prems(2) h True have "run_requests (handle_request n E t) rs w1 = (out, w')"
      by simp
    from Cons.IH [OF queue_frame_held [OF q Cons.prems(1)] this] q show ?thesis
      by (auto simp: queue_frame_def)
  next
    case False
    with Cons.prems(2) h have "out = o1" "w' = w1" by (auto split: outcome.splits)
    with f show ?thesis by simp
  qed
qed

lemma run_requests_depth:
  assumes "tb_nextNumber w \<noteq> tb_readyNumber w"
  shows "run_requests (handle_request (Suc n) E t) rs w
           = run_requests (handle_request (Suc 0) E t) rs w"
  using assms
proof (induction rs arbitrary: w)
  case Nil
  show ?case by simp
next
  case (Cons r rs)
  obtain o1 w1 where h: "handle_request (Suc 0) E t r w = (o1, w1)"
    by (cases "handle_request (Suc 0) E t r w")
  note e = handle_request_queue_held [OF Cons.prems, of n E t r]
  show ?case
  proof (cases "o1 = Returned")
    case True
    with handle_request_frame(2) [OF Cons.prems h] have "queue_frame w w1"
      by (simp add: finishes_def)
    from Cons.IH [OF queue_frame_held [OF this Cons.prems]] True h e show ?thesis
      by simp
  next
    case False
    with h e show ?thesis by (simp split: outcome.splits)
  qed
qed

lemma call_willRemove_frame:
  assumes J: "tb_nextNumber w \<noteq> tb_readyNumber w"
    and C: "call_willRemove (handle_request n E t) E c w = (out, w')"
  shows "state_currentController w' = state_currentController w
       \<and> (finishes out \<longrightarrow> queue_frame w w')"
proof (cases "classOf E c")
  case HSerial
  with C show ?thesis
    by (auto simp: call_willRemove_def Let_def queue_frame_def record_callback_def)
next
  case (Subclass rs th ss dma)
  let ?w1 = "record_callback c WillRemove w"
  have J1: "tb_nextNumber ?w1 \<noteq> tb_readyNumber ?w1" using J by (simp add: record_callback_def)
  obtain o2 w2 where r: "run_requests (handle_request n E t) rs ?w1 = (o2, w2)"
    by (cases "run_requests (handle_request n E t) rs ?w1")
  from run_requests_frame [OF J1 r]
  have f: "state_currentController w2 = state_currentController w"
    "finishes o2 \<longrightarrow> queue_frame w w2"
    by (simp_all add: queue_frame_def record_callback_def)
  show ?thesis
  proof (cases "o2 = Returned")
    case True
    with C Subclass r have "w' = w2"
      by (auto simp: call_willRemove_def Let_def split: option.splits)
    with f True show ?thesis by (simp add: finishes_def)
  next
    case False
    with C Subclass r have "w' = w2" "out = o2"
      by (auto simp: call_willRemove_def Let_def split: outcome.splits)
    with f show ?thesis by simp
  qed
qed

lemma call_willRemove_depth:
  assumes J: "tb_nextNumber w \<noteq> tb_readyNumber w"
  shows "call_willRemove (handle_request (Suc n) E t) E c w
           = call_willRemove (handle_request (Suc 0) E t) E c w"
proof -
  have "tb_nextNumber (record_callback c WillRemove w)
      \<noteq> tb_readyNumber (record_callback c WillRemove w)"
    using J by (simp add: record_callback_def)
  note r = run_requests_depth [OF this, of n E t]
  show ?thesis
    by (cases "classOf E c") (simp_all add: call_willRemove_def Let_def r)
qed


lemma willRemove_loop_depth:
  assumes "tb_nextNumber w \<noteq> tb_readyNumber w"
  shows "willRemove_loop (handle_request (Suc n) E t) E xs acc w
           = willRemove_loop (handle_request (Suc 0) E t) E xs acc w"
  using assms
proof (induction xs arbitrary: acc w)
  case Nil
  show ?case by simp
next
  case (Cons x xs)
  obtain o1 w1 where c: "call_willRemove (handle_request (Suc 0) E t) E x w = (o1, w1)"
    by (cases "call_willRemove (handle_request (Suc 0) E t) E x w")
  note e = call_willRemove_depth [OF Cons.prems, of n E t x]
  show ?case
  proof (cases "o1 = Returned")
    case True
    with call_willRemove_frame [OF Cons.prems c] have "queue_frame w w1"
      by (simp add: finishes_def)
    from Cons.IH [OF queue_frame_held [OF this Cons.prems]] True c e show ?thesis
      by simp
  next
    case False
    with c e show ?thesis by (simp split: outcome.splits)
  qed
qed

lemma performCurrentControllerChange_depth:
  assumes "tb_nextNumber w \<noteq> tb_readyNumber w"
  shows "performCurrentControllerChange (handle_request (Suc n) E t) E t new w
           = performCurrentControllerChange (handle_request (Suc 0) E t) E t new w"
proof -
  have "tb_nextNumber (w\<lparr>state_concurrentActiveControllerChangeAllowed := True\<rparr>)
      \<noteq> tb_readyNumber (w\<lparr>state_concurrentActiveControllerChangeAllowed := True\<rparr>)"
    using assms by simp
  note l = willRemove_loop_depth [OF this, of n E t]
  have t: "performCurrentControllerChange_try (handle_request (Suc n) E t) E t new xs w
      = performCurrentControllerChange_try (handle_request (Suc 0) E t) E t new xs w" for xs
    by (simp add: performCurrentControllerChange_try_def l)
  show ?thesis
    unfolding performCurrentControllerChange_def t ..
qed

text \<open>
  One level of nesting is all that a run can use: a request sent from a callback either
  takes the concurrent path, which calls no \<open>willRemove\<close>, or waits for ever.
\<close>

lemma makeActive_depth: "makeActive (Suc n) E t c w = makeActive (Suc 0) E t c w"
proof (cases "TransitionBlocker_ctor t w")
  case (Pair ok w1)
  show ?thesis
  proof (cases ok)
    case True
    with Pair have tb: "TransitionBlocker_ctor t w = (True, w1)" by simp
    note e = performCurrentControllerChange_depth
      [OF TransitionBlocker_ctor_holds_queue(1) [OF tb], of n E t]
    show ?thesis
      unfolding makeActive_def makeActive_with_def tb
      by (simp add: e split: option.splits bool.splits)
  next
    case False
    with Pair have tb: "TransitionBlocker_ctor t w = (False, w1)" by simp
    show ?thesis
      unfolding makeActive_def makeActive_with_def tb
      by (simp split: option.splits bool.splits)
  qed
qed

lemma removeFromAccess_depth:
  "removeFromAccess (Suc n) E t c w = removeFromAccess (Suc 0) E t c w"
proof (cases "TransitionBlocker_ctor t w")
  case (Pair ok w1)
  show ?thesis
  proof (cases ok)
    case True
    with Pair have tb: "TransitionBlocker_ctor t w = (True, w1)" by simp
    note e = performCurrentControllerChange_depth
      [OF TransitionBlocker_ctor_holds_queue(1) [OF tb], of n E t]
    show ?thesis
      unfolding removeFromAccess_def removeFromAccess_with_def tb
      by (simp add: e split: option.splits bool.splits)
  next
    case False
    with Pair have tb: "TransitionBlocker_ctor t w = (False, w1)" by simp
    show ?thesis
      unfolding removeFromAccess_def removeFromAccess_with_def tb
      by (simp split: option.splits bool.splits)
  qed
qed



lemma performActiveControllerChange_current:
  "state_currentController (snd (performActiveControllerChange E t new w))
     = state_currentController w"
  using performActiveControllerChange_queue_frame [of w E t new] by (simp add: queue_frame_def)

lemma makeInactive_current:
  "state_currentController (snd (makeInactive E t c w)) = state_currentController w"
proof (cases "TransitionBlocker_ctor t w")
  case (Pair ok w1)
  then have c1: "state_currentController w1 = state_currentController w"
    by (auto simp: TransitionBlocker_ctor_def Let_def split: if_splits)
  show ?thesis
    unfolding makeInactive_def Pair
    using c1 performActiveControllerChange_current [of E t None w]
      performActiveControllerChange_current [of E t None w1]
    by (simp add: at_scope_exit_snd TransitionBlocker_dtor_fields
        split: option.splits bool.splits)
qed



lemma AccessManagementGuard_current:
  shows "state_currentController (AccessManagementGuard_ctor t c w) = state_currentController w"
    and "state_currentController (AccessManagementGuard_dtor c w) = state_currentController w"
  by (simp_all add: AccessManagementGuard_ctor_def AccessManagementGuard_dtor_def
      modify_hserial_def)



lemma HSerial_makeInactive_current:
  "state_currentController (snd (HSerial_makeInactive E t c w)) = state_currentController w"
  using makeInactive_current [of E t c "AccessManagementGuard_ctor t c w"]
  by (simp add: HSerial_makeInactive_def Let_def at_scope_exit_snd AccessManagementGuard_current)




end
